theory Spec2Isabelle
  imports Complex_Main "HOL-Library.Log_Nat"
begin

unbundle bit_operations_syntax

text \<open>
  This theory embeds the Python module
  \<^verbatim>\<open>pennylane/templates/state_preparations/mottonen.py\<close>. Python integers are
  \<^typ>\<open>int\<close> or \<^typ>\<open>nat\<close>, Python strings are \<^typ>\<open>string\<close>, and the
  floating-point numbers of numpy are idealised as \<^typ>\<open>real\<close> and \<^typ>\<open>complex\<close>:
  rounding, infinities and NaN are outside the model. Exceptions are values of the
  type \<open>error\<close>.
\<close>

datatype error =
    IndexError
  | TypeError
  | OverflowError
  | ValueError
  | ShapeValueError
  | NormValueError

section \<open>Gray code generation\<close>

text \<open>
  The source builds the Gray code in place in a Python list of strings:
  \<^verbatim>\<open>
  def gray_code(rank):
      def gray_code_recurse(g, rank):
          k = len(g)
          if rank <= 0:
              return
          for i in range(k - 1, -1, -1):
              char = "1" + g[i]
              g.append(char)
          for i in range(k - 1, -1, -1):
              g[i] = "0" + g[i]
          gray_code_recurse(g, rank - 1)
      g = ["0", "1"]
      gray_code_recurse(g, rank - 1)
      return g
  \<close>
  The list is threaded through the model explicitly. Both \<open>for\<close> loops count
  \<open>i\<close> down from \<open>k - 1\<close> to \<open>0\<close>; the loop functions take \<open>i + 1\<close> as their
  counter, so that counter \<open>0\<close> is the exit.
\<close>

fun append_loop :: "string list \<Rightarrow> nat \<Rightarrow> string list" where
  "append_loop g 0 = g"
| "append_loop g (Suc i) = append_loop (g @ [CHR ''1'' # g ! i]) i"

fun prefix_loop :: "string list \<Rightarrow> nat \<Rightarrow> string list" where
  "prefix_loop g 0 = g"
| "prefix_loop g (Suc i) = prefix_loop (g[i := CHR ''0'' # g ! i]) i"

function gray_code_recurse :: "string list \<Rightarrow> int \<Rightarrow> string list" where
  "gray_code_recurse g rank =
     (let k = length g in
      if rank \<le> 0 then g
      else gray_code_recurse (prefix_loop (append_loop g k) k) (rank - 1))"
  by pat_completeness auto
termination
  by (relation "measure (\<lambda>(g, rank). nat rank)") auto

definition gray_code :: "int \<Rightarrow> string list" where
  "gray_code rank = gray_code_recurse [''0'', ''1''] (rank - 1)"

text \<open>
  Two binary strings differ in exactly one bit position: they have the same
  length and exactly one index carries different characters.
\<close>

definition differ_one_bit :: "string \<Rightarrow> string \<Rightarrow> bool" where
  "differ_one_bit s t \<longleftrightarrow>
     length s = length t \<and> length (filter (\<lambda>(a, b). a \<noteq> b) (zip s t)) = 1"

text \<open>Cyclic adjacency of a whole code, wraparound pair included.\<close>

definition cyclic_one_bit :: "string list \<Rightarrow> bool" where
  "cyclic_one_bit g \<longleftrightarrow>
     (\<forall>i < length g. differ_one_bit (g ! i) (g ! ((i + 1) mod length g)))"

section \<open>The sign matrix\<close>

text \<open>
  \<^verbatim>\<open>
  def _matrix_M_entry(row, col):
      b_and_g = row & ((col >> 1) ^ col)
      sum_of_ones = 0
      while b_and_g > 0:
          if b_and_g & 0b1:
              sum_of_ones += 1
          b_and_g = b_and_g >> 1
      return (-1) ** sum_of_ones
  \<close>
  The \<open>while\<close> loop is the recursive function \<open>count_ones_loop\<close>; it ends
  because a positive integer shrinks when shifted right.
\<close>

function count_ones_loop :: "int \<Rightarrow> nat \<Rightarrow> nat" where
  "count_ones_loop b_and_g sum_of_ones =
     (if b_and_g > 0
      then count_ones_loop (drop_bit 1 b_and_g)
             (if b_and_g AND 1 \<noteq> 0 then sum_of_ones + 1 else sum_of_ones)
      else sum_of_ones)"
  by pat_completeness auto
termination
  by (relation "measure (\<lambda>(b, s). nat b)") (auto simp: drop_bit_eq_div)

declare count_ones_loop.simps [simp del]

definition matrix_M_entry :: "int \<Rightarrow> int \<Rightarrow> int" where
  "matrix_M_entry row col =
     (let b_and_g = row AND (drop_bit 1 col XOR col)
      in (- 1) ^ count_ones_loop b_and_g 0)"

text \<open>
  \<^verbatim>\<open>
  def _compute_theta(alpha):
      ln = alpha.shape[0]
      k = np.log2(alpha.shape[0])
      M_trans = np.zeros(shape=(ln, ln))
      for i in range(len(M_trans)):
          for j in range(len(M_trans[0])):
              M_trans[i, j] = _matrix_M_entry(j, i)
      theta = M_trans @ alpha
      return theta / 2 ** k
  \<close>
  The loop indices \<open>i\<close> and \<open>j\<close> are the zero-based values of \<open>range\<close>, and
  they are passed to \<open>_matrix_M_entry\<close> as they are, \<open>j\<close> as the row and
  \<open>i\<close> as the column. The matrix-vector product is written out row by row.
\<close>

definition matvec :: "real list list \<Rightarrow> real list \<Rightarrow> real list" where
  "matvec M v = map (\<lambda>row. sum_list (map2 (*) row v)) M"

definition compute_theta :: "real list \<Rightarrow> real list" where
  "compute_theta alpha =
     (let ln = length alpha;
          k = log 2 (real ln);
          M_trans = map (\<lambda>i. map (\<lambda>j. real_of_int (matrix_M_entry (int j) (int i))) [0..<ln])
                        [0..<ln];
          theta = matvec M_trans alpha
      in map (\<lambda>t. t / 2 powr k) theta)"

section \<open>Emitted operations\<close>

text \<open>
  The gates \<open>qml.RY\<close>, \<open>qml.RZ\<close> and \<open>qml.CNOT\<close> queue an operation when
  they are called. The queue is an explicit list, and a function that emits returns
  the queue together with the exception that stopped it, if any.
\<close>

datatype gate = RY | RZ

datatype 'w operation = Rotation gate real 'w | CNOT 'w 'w

type_synonym 'w emitted = "'w operation list \<times> error option"

section \<open>Uniformly controlled rotations\<close>

text \<open>
  \<open>int(s, 2)\<close> on a non-empty string of the digits \<open>0\<close> and \<open>1\<close>, the only
  strings \<open>gray_code\<close> builds. Any other string is \<open>None\<close> here (Python raises
  ValueError on most of them and accepts a sign, blanks, underscores and the
  \<open>0b\<close> prefix, which the model leaves out).
\<close>

definition binary_string :: "string \<Rightarrow> bool" where
  "binary_string s \<longleftrightarrow> list_all (\<lambda>c. c = CHR ''0'' \<or> c = CHR ''1'') s"

definition int_base2 :: "string \<Rightarrow> nat option" where
  "int_base2 s =
     (if s = [] \<or> \<not> binary_string s then None
      else Some (foldl (\<lambda>acc c. 2 * acc + (if c = CHR ''1'' then 1 else 0)) 0 s))"

text \<open>
  \<open>int(np.log2(x))\<close> for a natural number \<open>x\<close>: \<open>np.log2(0)\<close> is \<open>-inf\<close>,
  which \<open>int\<close> rejects with OverflowError; for \<open>x > 0\<close> the result is the
  integer part of the binary logarithm, \<open>floorlog 2 x - 1\<close>.
\<close>

definition int_log2 :: "nat \<Rightarrow> error + nat" where
  "int_log2 x = (if x = 0 then Inl OverflowError else Inr (floorlog 2 x - 1))"

definition control_index :: "string \<Rightarrow> string \<Rightarrow> error + nat" where
  "control_index s t =
     (case int_base2 s of None \<Rightarrow> Inl ValueError
      | Some x \<Rightarrow> (case int_base2 t of None \<Rightarrow> Inl ValueError
                   | Some y \<Rightarrow> int_log2 (x XOR y)))"

text \<open>A list comprehension whose elements may raise: the first exception wins.\<close>

fun collect :: "(error + 'a) list \<Rightarrow> error + 'a list" where
  "collect [] = Inr []"
| "collect (Inl e # xs) = Inl e"
| "collect (Inr x # xs) = (case collect xs of Inl e \<Rightarrow> Inl e | Inr ys \<Rightarrow> Inr (x # ys))"

definition control_indices :: "string list \<Rightarrow> error + nat list" where
  "control_indices code =
     (let num_selections = length code
      in collect (map (\<lambda>i. control_index (code ! i) (code ! ((i + 1) mod num_selections)))
                      [0..<num_selections]))"

text \<open>
  \<^verbatim>\<open>
  for i, control_index in enumerate(control_indices):
      if theta[i] != 0.0:
          gate(theta[i], wires=[target_wire])
      qml.CNOT(wires=[control_wires[control_index], target_wire])
  \<close>
  Reading \<open>theta[i]\<close> or \<open>control_wires[control_index]\<close> out of range raises
  IndexError and leaves what was queued before.
\<close>

fun rotation_cnot_loop ::
  "gate \<Rightarrow> real list \<Rightarrow> 'w list \<Rightarrow> 'w \<Rightarrow> (nat \<times> nat) list \<Rightarrow> 'w operation list \<Rightarrow> 'w emitted"
where
  "rotation_cnot_loop g theta control_wires target_wire [] q = (q, None)"
| "rotation_cnot_loop g theta control_wires target_wire ((i, ci) # rest) q =
     (if length theta \<le> i then (q, Some IndexError)
      else let q1 = (if theta ! i \<noteq> 0 then q @ [Rotation g (theta ! i) target_wire] else q)
           in if length control_wires \<le> ci then (q1, Some IndexError)
              else rotation_cnot_loop g theta control_wires target_wire rest
                     (q1 @ [CNOT (control_wires ! ci) target_wire]))"

text \<open>
  \<^verbatim>\<open>
  def _uniform_rotation_dagger(gate, alpha, control_wires, target_wire):
      theta = _compute_theta(alpha)
      gray_code_rank = len(control_wires)
      if gray_code_rank == 0:
          if theta[0] != 0.0:
              gate(theta[0], wires=[target_wire])
          return
      code = gray_code(gray_code_rank)
      num_selections = len(code)
      control_indices = [
          int(np.log2(int(code[i], 2) ^ int(code[(i + 1) % num_selections], 2)))
          for i in range(num_selections)
      ]
      for i, control_index in enumerate(control_indices): ...
  \<close>
\<close>

definition uniform_rotation_dagger ::
  "gate \<Rightarrow> real list \<Rightarrow> 'w list \<Rightarrow> 'w \<Rightarrow> 'w operation list \<Rightarrow> 'w emitted"
where
  "uniform_rotation_dagger g alpha control_wires target_wire q =
     (let theta = compute_theta alpha;
          gray_code_rank = length control_wires
      in if gray_code_rank = 0
         then (if theta = [] then (q, Some IndexError)
               else if theta ! 0 \<noteq> 0 then (q @ [Rotation g (theta ! 0) target_wire], None)
               else (q, None))
         else (let code = gray_code (int gray_code_rank)
               in case control_indices code of
                    Inl e \<Rightarrow> (q, Some e)
                  | Inr idxs \<Rightarrow>
                      rotation_cnot_loop g theta control_wires target_wire
                        (zip [0..<length idxs] idxs) q))"

section \<open>Rotation angles\<close>

text \<open>
  \<open>np.take(a, indices=...)\<close> with a two-dimensional index list gathers row by row
  and raises IndexError when an index is out of range. All indices built below are
  natural numbers.
\<close>

definition np_take :: "real list \<Rightarrow> nat list list \<Rightarrow> error + real list list" where
  "np_take a indices =
     (if list_all (list_all (\<lambda>i. i < length a)) indices
      then Inr (map (map (nth a)) indices)
      else Inl IndexError)"

text \<open>
  \<^verbatim>\<open>
  def _get_alpha_z(omega, n, k):
      indices1 = [
          [(2 * j - 1) * 2 ** (k - 1) + l - 1 for l in range(1, 2 ** (k - 1) + 1)]
          for j in range(1, 2 ** (n - k) + 1)
      ]
      indices2 = [
          [(2 * j - 2) * 2 ** (k - 1) + l - 1 for l in range(1, 2 ** (k - 1) + 1)]
          for j in range(1, 2 ** (n - k) + 1)
      ]
      term1 = np.take(omega, indices=indices1)
      term2 = np.take(omega, indices=indices2)
      diff = (term1 - term2) / 2 ** (k - 1)
      return np.sum(diff, axis=1)
  \<close>
  A negative exponent makes \<open>2 ** e\<close> a float, which \<open>range\<close> rejects with
  TypeError; this happens exactly when \<open>n < k\<close> or \<open>k < 1\<close>. Otherwise \<open>j\<close> and
  \<open>l\<close> are at least \<open>1\<close>, so the subtractions stay in the natural numbers.
\<close>

definition get_alpha_z :: "real list \<Rightarrow> int \<Rightarrow> int \<Rightarrow> error + real list" where
  "get_alpha_z omega n k =
     (if n < k \<or> k < 1 then Inl TypeError
      else let K = 2 ^ nat (k - 1);
               J = 2 ^ nat (n - k);
               indices1 = map (\<lambda>j. map (\<lambda>l. (2 * j - 1) * K + l - 1) [1..<K + 1]) [1..<J + 1];
               indices2 = map (\<lambda>j. map (\<lambda>l. (2 * j - 2) * K + l - 1) [1..<K + 1]) [1..<J + 1]
           in case np_take omega indices1 of
                Inl e \<Rightarrow> Inl e
              | Inr term1 \<Rightarrow>
                 (case np_take omega indices2 of
                    Inl e \<Rightarrow> Inl e
                  | Inr term2 \<Rightarrow>
                      (let diff = map2 (map2 (\<lambda>x y. (x - y) / real K)) term1 term2
                       in Inr (map sum_list diff))))"

text \<open>
  \<^verbatim>\<open>
  def _get_alpha_y(a, n, k):
      indices_numerator = [
          [(2 * (j + 1) - 1) * 2 ** (k - 1) + l for l in range(2 ** (k - 1))]
          for j in range(2 ** (n - k))
      ]
      numerator = np.take(a, indices=indices_numerator)
      numerator = np.sum(np.abs(numerator) ** 2, axis=1)
      indices_denominator = [[j * 2 ** k + l for l in range(2 ** k)] for j in range(2 ** (n - k))]
      denominator = np.take(a, indices=indices_denominator)
      denominator = np.sum(np.abs(denominator) ** 2, axis=1)
      division = np.divide(
          numerator, denominator, out=np.zeros_like(numerator, dtype=float),
          where=denominator != 0.0
      )
      return 2 * np.arcsin(np.sqrt(division))
  \<close>
  \<open>np.divide\<close> with \<open>where\<close> and \<open>out\<close> divides only where the denominator
  is not zero and leaves the zero of \<open>out\<close> elsewhere.
\<close>

definition get_alpha_y :: "real list \<Rightarrow> int \<Rightarrow> int \<Rightarrow> error + real list" where
  "get_alpha_y a n k =
     (if n < k \<or> k < 1 then Inl TypeError
      else let K = 2 ^ nat (k - 1);
               J = 2 ^ nat (n - k);
               indices_numerator = map (\<lambda>j. map (\<lambda>l. (2 * (j + 1) - 1) * K + l) [0..<K]) [0..<J]
           in case np_take a indices_numerator of
                Inl e \<Rightarrow> Inl e
              | Inr numerator0 \<Rightarrow>
                 (let numerator = map (\<lambda>row. sum_list (map (\<lambda>x. \<bar>x\<bar> ^ 2) row)) numerator0;
                      indices_denominator =
                        map (\<lambda>j. map (\<lambda>l. j * 2 ^ nat k + l) [0..<2 ^ nat k]) [0..<J]
                  in case np_take a indices_denominator of
                       Inl e \<Rightarrow> Inl e
                     | Inr denominator0 \<Rightarrow>
                        (let denominator =
                               map (\<lambda>row. sum_list (map (\<lambda>x. \<bar>x\<bar> ^ 2) row)) denominator0;
                             division =
                               map2 (\<lambda>nu de. if de \<noteq> 0 then nu / de else 0) numerator denominator
                         in Inr (map (\<lambda>d. 2 * arcsin (sqrt d)) division))))"

section \<open>The state preparation driver\<close>

text \<open>
  Modelled from the spec: \<open>check_shape\<close> of \<open>pennylane.templates.utils\<close> is not
  among the sources. The spec says that the length of the state vector must equal
  \<open>2^N\<close> for the declared wire count \<open>N\<close>, and that the driver fails with a shape
  error otherwise.
\<close>

definition check_shape :: "complex list \<Rightarrow> nat \<Rightarrow> error option" where
  "check_shape state_vector expected = (if length state_vector = expected then None else Some ShapeValueError)"

text \<open>
  \<open>np.isclose(a, b, atol=...)\<close> keeps numpy's default relative tolerance
  \<open>rtol = 1e-05\<close> and tests \<open>|a - b| <= atol + rtol * |b|\<close>.
\<close>

definition np_isclose :: "real \<Rightarrow> real \<Rightarrow> real \<Rightarrow> bool" where
  "np_isclose a b atol \<longleftrightarrow> \<bar>a - b\<bar> \<le> atol + (1 / 100000) * \<bar>b\<bar>"

text \<open>
  The two cascades of the driver,
  \<^verbatim>\<open>
  for k in range(n_wires, 0, -1):
      alpha_y_k = _get_alpha_y(a, n_wires, k)
      control = wires_reverse[k:]
      target = wires_reverse[k - 1]
      _uniform_rotation_dagger(qml.RY, alpha_y_k, control, target)
  for k in range(n_wires, 0, -1):
      alpha_z_k = _get_alpha_z(omega, n_wires, k)
      control = wires_reverse[k:]
      target = wires_reverse[k - 1]
      if len(alpha_z_k) > 0:
          _uniform_rotation_dagger(qml.RZ, alpha_z_k, control, target)
  \<close>
  are recursive in the loop variable: the counter \<open>Suc k'\<close> is the iteration
  \<open>k = k' + 1\<close>, and \<open>0\<close> is the exit.
\<close>

fun y_cascade :: "real list \<Rightarrow> nat \<Rightarrow> 'w list \<Rightarrow> nat \<Rightarrow> 'w operation list \<Rightarrow> 'w emitted" where
  "y_cascade a n_wires wires_reverse 0 q = (q, None)"
| "y_cascade a n_wires wires_reverse (Suc k') q =
     (case get_alpha_y a (int n_wires) (int (Suc k')) of
        Inl e \<Rightarrow> (q, Some e)
      | Inr alpha_y_k \<Rightarrow>
         (if length wires_reverse \<le> k' then (q, Some IndexError)
          else case uniform_rotation_dagger RY alpha_y_k (drop (Suc k') wires_reverse)
                      (wires_reverse ! k') q of
                 (q', Some e) \<Rightarrow> (q', Some e)
               | (q', None) \<Rightarrow> y_cascade a n_wires wires_reverse k' q'))"

fun z_cascade :: "real list \<Rightarrow> nat \<Rightarrow> 'w list \<Rightarrow> nat \<Rightarrow> 'w operation list \<Rightarrow> 'w emitted" where
  "z_cascade omega n_wires wires_reverse 0 q = (q, None)"
| "z_cascade omega n_wires wires_reverse (Suc k') q =
     (case get_alpha_z omega (int n_wires) (int (Suc k')) of
        Inl e \<Rightarrow> (q, Some e)
      | Inr alpha_z_k \<Rightarrow>
         (if length wires_reverse \<le> k' then (q, Some IndexError)
          else if length alpha_z_k > 0
          then (case uniform_rotation_dagger RZ alpha_z_k (drop (Suc k') wires_reverse)
                       (wires_reverse ! k') q of
                  (q', Some e) \<Rightarrow> (q', Some e)
                | (q', None) \<Rightarrow> z_cascade omega n_wires wires_reverse k' q')
          else z_cascade omega n_wires wires_reverse k' q))"

text \<open>
  \<^verbatim>\<open>
  def MottonenStatePreparation(state_vector, wires):
      wires = Wires(wires)
      n_wires = len(wires)
      expected_shape = (2 ** n_wires,)
      check_shape(state_vector, expected_shape, msg=...)
      ...
      norm = np.sum(np.abs(state_vector) ** 2)
      if not np.isclose(norm, 1.0, atol=1e-3):
          raise ValueError("'state_vector' has to be of length 1.0, got {}".format(norm))
      wires_reverse = wires[::-1]
      a = np.absolute(state_vector)
      omega = np.angle(state_vector)
      ...
  \<close>
  The state vector is a list of complex numbers and the wires a list of labels
  (\<open>Wires(wires)\<close>, which is not among the sources, rejects a list with a repeated
  label; the model takes any list, and a property that needs distinct labels says
  so). The branch for \<open>Variable\<close> entries is left out: the entries are numbers. Both
  exceptions of the validation are Python \<open>ValueError\<close>s with different messages;
  they are \<open>ShapeValueError\<close> and \<open>NormValueError\<close> here. \<open>np.angle\<close> is the
  argument in \<open>(-pi, pi]\<close> with \<open>angle(0) = 0\<close>, which is \<^const>\<open>Arg\<close>. An
  exception leaves the caller with no operation sequence; the model returns what had
  been queued before it, next to the exception.
\<close>

definition MottonenStatePreparation :: "complex list \<Rightarrow> 'w list \<Rightarrow> 'w emitted" where
  "MottonenStatePreparation state_vector wires =
     (let n_wires = length wires
      in case check_shape state_vector (2 ^ n_wires) of
           Some e \<Rightarrow> ([], Some e)
         | None \<Rightarrow>
            (let norm = sum_list (map (\<lambda>z. \<bar>cmod z\<bar> ^ 2) state_vector)
             in if \<not> np_isclose norm 1 (1 / 1000) then ([], Some NormValueError)
                else let wires_reverse = rev wires;
                         a = map cmod state_vector;
                         omega = map Arg state_vector
                     in case y_cascade a n_wires wires_reverse n_wires [] of
                          (q, Some e) \<Rightarrow> (q, Some e)
                        | (q, None) \<Rightarrow> z_cascade omega n_wires wires_reverse n_wires q))"

section \<open>The action of the operations on a state\<close>

text \<open>
  Modelled from the spec: the action of the emitted operations on a state of \<open>N\<close>
  qubits. The gates \<open>qml.RY\<close>, \<open>qml.RZ\<close> and \<open>qml.CNOT\<close> and the device that
  applies them are not among the sources. The spec speaks of single-target
  parameterized rotations (Y-rotation, Z-rotation) and two-wire bit-flip operations
  with a control and a target, applied in the given order to the reference all-zero
  state, and of equality up to a global phase. They are taken here with their
  standard matrices: \<open>RY(x) = exp(-i x Y / 2)\<close>, \<open>RZ(x) = exp(-i x Z / 2)\<close>, and the
  bit-flip of the target where the control is set.

  A state of \<open>N\<close> qubits gives an amplitude to every index below \<open>2^N\<close>; a matrix
  \<open>(a, b, c, d)\<close> has the rows \<open>(a, b)\<close> and \<open>(c, d)\<close>.
\<close>

type_synonym state = "nat \<Rightarrow> complex"

type_synonym matrix2 = "complex \<times> complex \<times> complex \<times> complex"

definition zero_state :: state where
  "zero_state i = (if i = 0 then 1 else 0)"

fun rotation_matrix :: "gate \<Rightarrow> real \<Rightarrow> matrix2" where
  "rotation_matrix RY x =
     (complex_of_real (cos (x / 2)), - complex_of_real (sin (x / 2)),
      complex_of_real (sin (x / 2)), complex_of_real (cos (x / 2)))"
| "rotation_matrix RZ x = (cis (- x / 2), 0, 0, cis (x / 2))"

text \<open>
  A one-qubit matrix on the bit \<open>t\<close> of the index mixes the two amplitudes whose
  indices differ in that bit only; the bit-flip exchanges them where the bit \<open>c\<close>
  is set.
\<close>

definition apply_single :: "nat \<Rightarrow> matrix2 \<Rightarrow> state \<Rightarrow> state" where
  "apply_single t M psi =
     (\<lambda>i. case M of (a, b, c, d) \<Rightarrow>
        if bit i t then c * psi (i - 2 ^ t) + d * psi i else a * psi i + b * psi (i + 2 ^ t))"

definition apply_cnot :: "nat \<Rightarrow> nat \<Rightarrow> state \<Rightarrow> state" where
  "apply_cnot c t psi =
     (\<lambda>i. if bit i c then psi (if bit i t then i - 2 ^ t else i + 2 ^ t) else psi i)"

text \<open>
  The wire at position \<open>k\<close> of the reversed wire list is the bit \<open>k\<close> of the index:
  the first declared wire is the most significant bit, as the grouping of the
  indices in \<open>_get_alpha_y\<close> and \<open>_get_alpha_z\<close> has it (the spec: wire index \<open>0\<close> in
  the algorithm is the caller's last declared wire).
\<close>

fun wire_index :: "'w list \<Rightarrow> 'w \<Rightarrow> nat" where
  "wire_index [] w = 0"
| "wire_index (x # xs) w = (if x = w then 0 else Suc (wire_index xs w))"

definition wire_bit :: "'w list \<Rightarrow> 'w \<Rightarrow> nat" where
  "wire_bit wires w = wire_index (rev wires) w"

fun apply_operation :: "'w list \<Rightarrow> 'w operation \<Rightarrow> state \<Rightarrow> state" where
  "apply_operation wires (Rotation g x w) psi =
     apply_single (wire_bit wires w) (rotation_matrix g x) psi"
| "apply_operation wires (CNOT c t) psi =
     apply_cnot (wire_bit wires c) (wire_bit wires t) psi"

definition run_operations :: "'w list \<Rightarrow> 'w operation list \<Rightarrow> state \<Rightarrow> state" where
  "run_operations wires ops psi = foldl (\<lambda>s op. apply_operation wires op s) psi ops"

section \<open>Auxiliary notions for the proofs\<close>

text \<open>
  One pass of \<open>gray_code_recurse\<close> through its two loops, in closed form: the old
  code with \<open>0\<close> in front, followed by the reversed old code with \<open>1\<close> in front.
\<close>

definition gray_step :: "string list \<Rightarrow> string list" where
  "gray_step g = map ((#) CHR ''0'') g @ map ((#) CHR ''1'') (rev g)"

text \<open>The invariant of the recursion, for a code of bit-length \<open>m\<close>.\<close>

definition gray_inv :: "nat \<Rightarrow> string list \<Rightarrow> bool" where
  "gray_inv m g \<longleftrightarrow>
     length g = 2 ^ m \<and> (\<forall>s \<in> set g. length s = m \<and> binary_string s) \<and>
     cyclic_one_bit g \<and> g ! 0 = replicate m CHR ''0''"

text \<open>The summand of the \<open>alpha_z\<close> formula and the two grouped sums of \<open>alpha_y\<close>.\<close>

definition alpha_z_formula :: "real list \<Rightarrow> nat \<Rightarrow> nat \<Rightarrow> nat \<Rightarrow> real" where
  "alpha_z_formula omega K j l =
     (omega ! ((2 * j - 1) * K + l - 1) - omega ! ((2 * j - 2) * K + l - 1)) / real K"

definition alpha_y_numerator :: "real list \<Rightarrow> nat \<Rightarrow> nat \<Rightarrow> real" where
  "alpha_y_numerator a K j = sum_list (map (\<lambda>l. \<bar>a ! ((2 * (j + 1) - 1) * K + l)\<bar> ^ 2) [0..<K])"

definition alpha_y_denominator :: "real list \<Rightarrow> nat \<Rightarrow> nat \<Rightarrow> real" where
  "alpha_y_denominator a K2 j = sum_list (map (\<lambda>l. \<bar>a ! (j * K2 + l)\<bar> ^ 2) [0..<K2])"

text \<open>The number of set bits of an integer, as a set cardinality.\<close>

definition popcount :: "int \<Rightarrow> nat" where
  "popcount b = card {n. bit b n}"

text \<open>
  The entry of the sign matrix at the zero-based position \<open>(i, j)\<close>, as
  \<open>_compute_theta\<close> fills it in.
\<close>

definition sign_matrix :: "nat \<Rightarrow> nat \<Rightarrow> real" where
  "sign_matrix i j = real_of_int (matrix_M_entry (int j) (int i))"

text \<open>
  For comparison, the reading of claim C2: \<open>M[i][j] = entry(j+1, i+1)\<close> for
  zero-based \<open>i\<close> and \<open>j\<close>, and \<open>theta = (M @ alpha) / L\<close>.
\<close>

definition sign_matrix_one_based :: "nat \<Rightarrow> nat \<Rightarrow> real" where
  "sign_matrix_one_based i j = real_of_int (matrix_M_entry (int j + 1) (int i + 1))"

definition compute_theta_one_based :: "real list \<Rightarrow> real list" where
  "compute_theta_one_based alpha =
     map (\<lambda>i. (\<Sum>j < length alpha. sign_matrix_one_based i j * alpha ! j) / real (length alpha))
         [0..<length alpha]"

text \<open>The value of a string of binary digits, and the number of differing positions.\<close>

definition binary_value :: "string \<Rightarrow> nat" where
  "binary_value s = foldl (\<lambda>acc c. 2 * acc + (if c = CHR ''1'' then 1 else 0)) 0 s"

definition count_diff :: "string \<Rightarrow> string \<Rightarrow> nat" where
  "count_diff s t = length (filter (\<lambda>(a, b). a \<noteq> b) (zip s t))"

text \<open>Recognising the bit-flip operations, and one round of the expander's loop.\<close>

fun is_CNOT :: "'w operation \<Rightarrow> bool" where
  "is_CNOT (CNOT c t) = True"
| "is_CNOT (Rotation g x t) = False"

definition rotation_step :: "gate \<Rightarrow> real list \<Rightarrow> 'w list \<Rightarrow> 'w \<Rightarrow> nat \<Rightarrow> nat \<Rightarrow> 'w operation list" where
  "rotation_step g theta control_wires target_wire i ci =
     (if theta ! i \<noteq> 0 then [Rotation g (theta ! i) target_wire] else []) @
     [CNOT (control_wires ! ci) target_wire]"

text \<open>
  Notions for the correctness proof of the prepared state: the arithmetic Gray code
  and the sign \<open>(-1)^popcount(c AND g)\<close>, products of two-by-two matrices, an
  operator on one target bit whose matrix depends on the other bits, and the
  invariants of the two cascades.
\<close>

definition gray_value :: "nat \<Rightarrow> nat" where
  "gray_value l = l XOR (l div 2)"

definition parity_sign :: "nat \<Rightarrow> nat \<Rightarrow> real" where
  "parity_sign c g = (- 1) ^ popcount (int (c AND g))"

definition gray_values_inv :: "nat \<Rightarrow> string list \<Rightarrow> bool" where
  "gray_values_inv m g \<longleftrightarrow>
     length g = 2 ^ m \<and> (\<forall>l < 2 ^ m. length (g ! l) = m \<and> binary_value (g ! l) = gray_value l)"

definition mmul :: "matrix2 \<Rightarrow> matrix2 \<Rightarrow> matrix2" where
  "mmul M M' = (case M of (a, b, c, d) \<Rightarrow> case M' of (a', b', c', d') \<Rightarrow>
     (a * a' + b * c', a * b' + b * d', c * a' + d * c', c * b' + d * d'))"

definition flip_matrix :: matrix2 where "flip_matrix = (0, 1, 1, 0)"

definition unit_matrix :: matrix2 where "unit_matrix = (1, 0, 0, 1)"

definition apply_local :: "nat \<Rightarrow> (nat \<Rightarrow> matrix2) \<Rightarrow> state \<Rightarrow> state" where
  "apply_local t M psi =
     (\<lambda>i. case M (unset_bit t i) of (a, b, c, d) \<Rightarrow>
        if bit i t then c * psi (unset_bit t i) + d * psi (set_bit t i)
        else a * psi (unset_bit t i) + b * psi (set_bit t i))"

definition signed_rotation :: "real \<Rightarrow> gate \<Rightarrow> real \<Rightarrow> matrix2" where
  "signed_rotation s g x = (if s = 1 then rotation_matrix g x else mmul flip_matrix (rotation_matrix g x))"

fun sigma :: "(nat \<Rightarrow> nat) \<Rightarrow> nat \<Rightarrow> nat \<Rightarrow> real" where
  "sigma cb 0 i0 = 1"
| "sigma cb (Suc m) i0 = sigma cb m i0 * (if bit i0 (cb m) then - 1 else 1)"

fun acc_angle :: "(nat \<Rightarrow> nat) \<Rightarrow> real list \<Rightarrow> nat \<Rightarrow> nat \<Rightarrow> real" where
  "acc_angle cb theta 0 i0 = 0"
| "acc_angle cb theta (Suc m) i0 = acc_angle cb theta m i0 + sigma cb m i0 * theta ! m"

definition y_inv :: "real list \<Rightarrow> nat \<Rightarrow> nat \<Rightarrow> state \<Rightarrow> bool" where
  "y_inv a N k psi \<longleftrightarrow>
     (\<forall>i < 2 ^ N. psi i = (if i mod 2 ^ k = 0
                           then complex_of_real (sqrt (\<Sum>l < 2 ^ k. (a ! (i + l))\<^sup>2)) else 0))"

definition block_mean :: "real list \<Rightarrow> nat \<Rightarrow> nat \<Rightarrow> real" where
  "block_mean omega t x = (\<Sum>l < 2 ^ t. omega ! (x * 2 ^ t + l)) / 2 ^ t"

definition z_inv :: "real list \<Rightarrow> real list \<Rightarrow> nat \<Rightarrow> nat \<Rightarrow> state \<Rightarrow> bool" where
  "z_inv a omega N k psi \<longleftrightarrow>
     (\<forall>i < 2 ^ N. psi i = complex_of_real (a ! i) *
                           cis (block_mean omega k (i div 2 ^ k) - block_mean omega N 0))"

section \<open>Properties of the Gray code\<close>

lemma differ_one_bit_Cons_same: "differ_one_bit (c # s) (c # t) = differ_one_bit s t"
  by (simp add: differ_one_bit_def)

lemma differ_one_bit_Cons_diff: "c \<noteq> d \<Longrightarrow> differ_one_bit (c # s) (d # s)"
  by (auto simp: differ_one_bit_def filter_empty_conv set_zip)

lemma count_diff_sym:
  "length s = length t \<Longrightarrow>
   length (filter (\<lambda>(a, b). a \<noteq> b) (zip t s)) = length (filter (\<lambda>(a, b). a \<noteq> b) (zip s t))"
  by (induction s t rule: list_induct2) auto

lemma differ_one_bit_sym: "differ_one_bit s t \<Longrightarrow> differ_one_bit t s"
  by (simp add: differ_one_bit_def count_diff_sym)

lemma gray_step_nth_lo: "i < length g \<Longrightarrow> gray_step g ! i = CHR ''0'' # g ! i"
  by (simp add: gray_step_def nth_append)

lemma gray_step_nth_hi:
  "i < length g \<Longrightarrow> gray_step g ! (length g + i) = CHR ''1'' # g ! (length g - Suc i)"
  by (simp add: gray_step_def nth_append rev_nth)

lemma cyclic_gray_step:
  assumes c: "cyclic_one_bit g" and l: "2 \<le> length g"
  shows "cyclic_one_bit (gray_step g)"
  unfolding cyclic_one_bit_def
proof (intro allI impI)
  fix i assume "i < length (gray_step g)"
  then have i: "i < 2 * length g" by (simp add: gray_step_def)
  let ?L = "length g"
  have len: "length (gray_step g) = 2 * ?L" by (simp add: gray_step_def)
  have adj: "differ_one_bit (g ! j) (g ! Suc j)" if "Suc j < ?L" for j
    using c that unfolding cyclic_one_bit_def by (metis Suc_eq_plus1 Suc_lessD mod_less)
  have zero: "gray_step g ! 0 = CHR ''0'' # g ! 0"
    using l by (intro gray_step_nth_lo) linarith
  consider "Suc i < ?L" | "Suc i = ?L" | "?L \<le> i" "Suc i < 2 * ?L" | "Suc i = 2 * ?L"
    using i by linarith
  then show "differ_one_bit (gray_step g ! i) (gray_step g ! ((i + 1) mod length (gray_step g)))"
  proof cases
    case 1
    then show ?thesis using adj [of i]
      by (simp add: len gray_step_nth_lo differ_one_bit_Cons_same)
  next
    case 2
    have "gray_step g ! i = CHR ''0'' # g ! i" using 2 by (simp add: gray_step_nth_lo)
    moreover have "gray_step g ! (?L + 0) = CHR ''1'' # g ! (?L - Suc 0)"
      using l by (intro gray_step_nth_hi) linarith
    moreover have "?L - Suc 0 = i" using 2 by linarith
    moreover have "(i + 1) mod length (gray_step g) = ?L" using 2 l by (simp add: len)
    ultimately show ?thesis
      by (simp add: differ_one_bit_Cons_diff)
  next
    case 3
    define j where "j = i - ?L"
    define p where "p = ?L - Suc (Suc j)"
    have j: "Suc j < ?L" "i = ?L + j" "Suc i = ?L + Suc j" using 3 by (auto simp: j_def)
    have p: "Suc p < ?L" "?L - Suc j = Suc p" using j(1) by (auto simp: p_def)
    have "gray_step g ! i = CHR ''1'' # g ! Suc p"
      using gray_step_nth_hi [of j g] j p by simp
    moreover have "gray_step g ! Suc i = CHR ''1'' # g ! p"
      using gray_step_nth_hi [of "Suc j" g] j by (simp add: p_def)
    moreover have "(i + 1) mod length (gray_step g) = Suc i" using 3 by (simp add: len)
    ultimately show ?thesis using differ_one_bit_sym [OF adj [OF p(1)]]
      by (simp add: differ_one_bit_Cons_same)
  next
    case 4
    have "i = ?L + (?L - Suc 0)" using 4 by linarith
    moreover have "gray_step g ! (?L + (?L - Suc 0)) = CHR ''1'' # g ! (?L - Suc (?L - Suc 0))"
      using l by (intro gray_step_nth_hi) linarith
    moreover have "?L - Suc (?L - Suc 0) = 0" using l by linarith
    moreover have "(i + 1) mod length (gray_step g) = 0" using 4 by (simp add: len)
    ultimately show ?thesis using zero
      by (simp add: differ_one_bit_Cons_diff)
  qed
qed

lemma gray_inv_step:
  assumes "gray_inv m g" and "1 \<le> m"
  shows "gray_inv (Suc m) (gray_step g)"
proof -
  have l: "length g = 2 ^ m" and c: "cyclic_one_bit g" using assms by (auto simp: gray_inv_def)
  have "(2::nat) ^ 1 \<le> 2 ^ m" using assms(2) by (intro power_increasing) auto
  then have l2: "2 \<le> length g" using l by simp
  have "gray_step g ! 0 = CHR ''0'' # g ! 0"
    using l2 by (intro gray_step_nth_lo) linarith
  moreover have "\<forall>s \<in> set (gray_step g). length s = Suc m \<and> binary_string s"
    using assms(1) by (auto simp: gray_inv_def gray_step_def binary_string_def)
  ultimately show ?thesis
    using assms(1) cyclic_gray_step [OF c l2]
    by (simp add: gray_inv_def gray_step_def)
qed

lemma gray_inv_base: "gray_inv 1 [''0'', ''1'']"
  by (simp add: gray_inv_def binary_string_def cyclic_one_bit_def differ_one_bit_def less_Suc_eq)

lemma append_loop_eq:
  "k \<le> length g \<Longrightarrow> append_loop g k = g @ map ((#) CHR ''1'') (rev (take k g))"
proof (induction k arbitrary: g)
  case 0
  then show ?case by simp
next
  case (Suc k)
  then have "k < length g" by simp
  then show ?case
    using Suc.IH [of "g @ [CHR ''1'' # g ! k]"]
    by (simp add: take_Suc_conv_app_nth nth_append)
qed

lemma prefix_loop_eq:
  "k \<le> length g \<Longrightarrow> prefix_loop g k = map ((#) CHR ''0'') (take k g) @ drop k g"
proof (induction k arbitrary: g)
  case 0
  then show ?case by simp
next
  case (Suc k)
  then have k: "k < length g" by simp
  have "prefix_loop g (Suc k) = prefix_loop (g[k := CHR ''0'' # g ! k]) k" by simp
  also have "\<dots> = map ((#) CHR ''0'') (take k (g[k := CHR ''0'' # g ! k])) @ drop k (g[k := CHR ''0'' # g ! k])"
    using Suc.IH [of "g[k := CHR ''0'' # g ! k]"] k by simp
  also have "\<dots> = map ((#) CHR ''0'') (take k g) @ (CHR ''0'' # g ! k) # drop (Suc k) g"
    using k by (simp add: drop_update_swap Cons_nth_drop_Suc [symmetric] flip: upd_conv_take_nth_drop)
  also have "\<dots> = map ((#) CHR ''0'') (take (Suc k) g) @ drop (Suc k) g"
    using k by (simp add: take_Suc_conv_app_nth)
  finally show ?case .
qed

lemma loops_gray_step:
  "prefix_loop (append_loop g (length g)) (length g) = gray_step g"
  by (simp add: append_loop_eq prefix_loop_eq gray_step_def)

lemma gray_inv_recurse:
  "gray_inv m g \<Longrightarrow> 1 \<le> m \<Longrightarrow> gray_inv (m + n) (gray_code_recurse g (int n))"
proof (induction n arbitrary: m g)
  case 0
  then show ?case by simp
next
  case (Suc n)
  have "gray_code_recurse g (int (Suc n)) = gray_code_recurse (gray_step g) (int n)"
    by (subst gray_code_recurse.simps) (simp add: loops_gray_step Let_def)
  moreover have "gray_inv (Suc m + n) (gray_code_recurse (gray_step g) (int n))"
    using Suc.IH [OF gray_inv_step [OF Suc.prems]] by simp
  ultimately show ?case by simp
qed

lemma gray_code_inv: "1 \<le> r \<Longrightarrow> gray_inv (nat r) (gray_code r)"
  using gray_inv_recurse [OF gray_inv_base, of "nat (r - 1)"]
  by (simp add: gray_code_def nat_diff_distrib')

lemma gray_code_low: "r \<le> 1 \<Longrightarrow> gray_code r = [''0'', ''1'']"
  by (simp add: gray_code_def)


text \<open>
  Claim C5, as the code has it: for every rank \<open>r \<ge> 1\<close> the generated code has
  \<open>2^r\<close> entries, each of bit-length \<open>r\<close>, every cyclically adjacent pair of
  entries (the pair of last and first included) differs in exactly one bit position,
  and the first entry is the string of \<open>r\<close> zeros. The code of rank \<open>0\<close> is the
  base code \<open>["0", "1"]\<close>: two entries of bit-length one.
\<close>

theorem gray_code_shape:
  "(1 \<le> r \<longrightarrow>
      length (gray_code r) = 2 ^ nat r \<and>
      (\<forall>s \<in> set (gray_code r). length s = nat r) \<and>
      cyclic_one_bit (gray_code r) \<and>
      gray_code r ! 0 = replicate (nat r) CHR ''0'') \<and>
   gray_code 0 = [''0'', ''1'']"
proof -
  have "gray_inv (nat r) (gray_code r)" if "1 \<le> r"
    using that by (rule gray_code_inv)
  moreover have "gray_code 0 = [''0'', ''1'']"
    by (simp add: gray_code_low)
  ultimately show ?thesis
    by (simp add: gray_inv_def)
qed

theorem gray_code_shape_witness:
  "(1::int) \<le> 2 \<and> length (gray_code 2) = 2 ^ nat 2 \<and>
   list_all (\<lambda>s. length s = nat 2) (gray_code 2) \<and>
   cyclic_one_bit (gray_code 2) \<and> gray_code 2 ! 0 = replicate (nat 2) CHR ''0''"
  using gray_code_shape [of 2] by (simp add: list_all_iff)

text \<open>
  The claim as written fails at rank \<open>0\<close>: the code has two entries, not \<open>2^0\<close>,
  and its first entry has one bit, not none.
\<close>

theorem gray_code_rank0_counterexample:
  "\<not> (length (gray_code 0) = 2 ^ nat 0 \<and>
      cyclic_one_bit (gray_code 0) \<and>
      length (gray_code 0) = 2 \<and>
      gray_code 0 ! 0 = replicate (nat 0) CHR ''0'')"
  by (simp add: gray_code_def)

text \<open>
  Claim C9, as the code has it: the generator has no failure mode at all. It returns
  a code for every integer rank; the code has \<open>2^max(1, r)\<close> entries, and for a
  negative rank it is the base code \<open>["0", "1"]\<close>.
\<close>

theorem gray_code_total:
  "length (gray_code r) = 2 ^ nat (max 1 r) \<and> (r < 0 \<longrightarrow> gray_code r = [''0'', ''1''])"
proof (cases "1 \<le> r")
  case True
  then have "gray_inv (nat r) (gray_code r)" by (rule gray_code_inv)
  with True show ?thesis by (simp add: gray_inv_def max_def)
next
  case False
  then have "gray_code r = [''0'', ''1'']" by (simp add: gray_code_low)
  with False show ?thesis by (simp add: max_def)
qed

theorem gray_code_total_witness:
  "length (gray_code (- 2)) = 2 ^ nat (max 1 (- 2)) \<and> (- 2 < (0::int)) \<and>
   gray_code (- 2) = [''0'', ''1'']"
  using gray_code_total [of "- 2"] by simp

text \<open>A negative rank is not rejected: the call returns the base code.\<close>

theorem gray_code_negative_counterexample:
  "gray_code (- 1) = [''0'', ''1'']"
  by (simp add: gray_code_def)


section \<open>Properties of the rotation angles\<close>

lemma np_take_Inr:
  "list_all (list_all (\<lambda>i. i < length a)) idx \<Longrightarrow> np_take a idx = Inr (map (map (nth a)) idx)"
  by (simp add: np_take_def)

lemma pow_split:
  assumes "1 \<le> k" "k \<le> n"
  shows "2 * (2 ^ nat (n - k) * 2 ^ nat (k - 1)) = (2::nat) ^ nat n"
    and "(2::nat) ^ nat k = 2 * 2 ^ nat (k - 1)"
proof -
  have "nat n = Suc (nat (n - k) + nat (k - 1))" using assms by linarith
  then show "2 * (2 ^ nat (n - k) * 2 ^ nat (k - 1)) = (2::nat) ^ nat n"
    by (simp add: power_add)
  have "nat k = Suc (nat (k - 1))" using assms by linarith
  then show "(2::nat) ^ nat k = 2 * 2 ^ nat (k - 1)" by simp
qed

lemma z_index_bound:
  fixes j l J K :: nat
  assumes "1 \<le> j" "j \<le> J" "1 \<le> l" "l \<le> K"
  shows "(2 * j - 1) * K + l - 1 < 2 * (J * K)" "(2 * j - 2) * K + l - 1 < 2 * (J * K)"
proof -
  have "(2 * j - 1) * K + K = 2 * (j * K)"
    using assms(1) by (cases j) (simp_all add: algebra_simps)
  moreover have "j * K \<le> J * K" using assms(2) by (rule mult_le_mono1)
  ultimately have *: "(2 * j - 1) * K + K \<le> 2 * (J * K)" by linarith
  then show "(2 * j - 1) * K + l - 1 < 2 * (J * K)" using assms(3,4) by linarith
  have "(2 * j - 2) * K \<le> (2 * j - 1) * K" by (rule mult_le_mono1) simp
  with * show "(2 * j - 2) * K + l - 1 < 2 * (J * K)" using assms(3,4) by linarith
qed

lemma get_alpha_z_closed:
  assumes k: "1 \<le> k" "k \<le> n" and len: "length omega = 2 ^ nat n"
  shows "get_alpha_z omega n k =
           Inr (map (\<lambda>j. sum_list (map (alpha_z_formula omega (2 ^ nat (k - 1)) j)
                                      [1..<2 ^ nat (k - 1) + 1]))
                    [1..<2 ^ nat (n - k) + 1])"
proof -
  define K :: nat where "K = 2 ^ nat (k - 1)"
  define J :: nat where "J = 2 ^ nat (n - k)"
  let ?i1 = "map (\<lambda>j. map (\<lambda>l. (2 * j - 1) * K + l - 1) [1..<K + 1]) [1..<J + 1]"
  let ?i2 = "map (\<lambda>j. map (\<lambda>l. (2 * j - 2) * K + l - 1) [1..<K + 1]) [1..<J + 1]"
  have L: "length omega = 2 * (J * K)"
    using pow_split(1) [OF k] len by (simp add: K_def J_def)
  have "list_all (list_all (\<lambda>i. i < length omega)) ?i1"
    unfolding list_all_iff
  proof (intro ballI)
    fix row i assume "row \<in> set ?i1" "i \<in> set row"
    then obtain j l where "1 \<le> j" "j \<le> J" "1 \<le> l" "l \<le> K" "i = (2 * j - 1) * K + l - 1"
      by auto
    then show "i < length omega" using z_index_bound(1) [of j J l K] L by simp
  qed
  then have 1: "np_take omega ?i1 = Inr (map (map (nth omega)) ?i1)"
    by (rule np_take_Inr)
  have "list_all (list_all (\<lambda>i. i < length omega)) ?i2"
    unfolding list_all_iff
  proof (intro ballI)
    fix row i assume "row \<in> set ?i2" "i \<in> set row"
    then obtain j l where "1 \<le> j" "j \<le> J" "1 \<le> l" "l \<le> K" "i = (2 * j - 2) * K + l - 1"
      by auto
    then show "i < length omega" using z_index_bound(2) [of j J l K] L by simp
  qed
  then have 2: "np_take omega ?i2 = Inr (map (map (nth omega)) ?i2)"
    by (rule np_take_Inr)
  have "get_alpha_z omega n k =
          Inr (map sum_list (map2 (map2 (\<lambda>x y. (x - y) / real K))
                 (map (map (nth omega)) ?i1) (map (map (nth omega)) ?i2)))"
    using k 1 2 unfolding get_alpha_z_def Let_def K_def [symmetric] J_def [symmetric]
    by simp
  also have "map2 (map2 (\<lambda>x y. (x - y) / real K))
                 (map (map (nth omega)) ?i1) (map (map (nth omega)) ?i2)
             = map (\<lambda>j. map (alpha_z_formula omega K j) [1..<K + 1]) [1..<J + 1]"
    by (simp add: map2_map_map alpha_z_formula_def comp_def)
  finally show ?thesis by (simp add: comp_def K_def J_def)
qed

lemma y_index_bound:
  fixes j l J K :: nat
  assumes "j < J"
  shows "l < K \<Longrightarrow> (2 * (j + 1) - 1) * K + l < 2 * (J * K)"
    and "l < 2 * K \<Longrightarrow> j * (2 * K) + l < 2 * (J * K)"
proof -
  have "Suc j * K \<le> J * K" using assms by (intro mult_le_mono1) simp
  then have *: "2 * (j * K) + 2 * K \<le> 2 * (J * K)" by simp
  have "(2 * (j + 1) - 1) * K = 2 * (j * K) + K" by (simp add: algebra_simps)
  with * show "l < K \<Longrightarrow> (2 * (j + 1) - 1) * K + l < 2 * (J * K)" by linarith
  have "j * (2 * K) = 2 * (j * K)" by simp
  with * show "l < 2 * K \<Longrightarrow> j * (2 * K) + l < 2 * (J * K)" by linarith
qed

lemma get_alpha_y_closed:
  assumes k: "1 \<le> k" "k \<le> n" and len: "length a = 2 ^ nat n"
  shows "get_alpha_y a n k =
           Inr (map (\<lambda>j. 2 * arcsin (sqrt
                         (if alpha_y_denominator a (2 ^ nat k) j \<noteq> 0
                          then alpha_y_numerator a (2 ^ nat (k - 1)) j /
                               alpha_y_denominator a (2 ^ nat k) j
                          else 0)))
                    [0..<2 ^ nat (n - k)])"
proof -
  define K :: nat where "K = 2 ^ nat (k - 1)"
  define J :: nat where "J = 2 ^ nat (n - k)"
  have K2: "(2::nat) ^ nat k = 2 * K" using pow_split(2) [OF k] by (simp add: K_def)
  let ?inum = "map (\<lambda>j. map (\<lambda>l. (2 * (j + 1) - 1) * K + l) [0..<K]) [0..<J]"
  let ?iden = "map (\<lambda>j. map (\<lambda>l. j * (2 * K) + l) [0..<2 * K]) [0..<J]"
  have L: "length a = 2 * (J * K)"
    using pow_split(1) [OF k] len by (simp add: K_def J_def)
  have "list_all (list_all (\<lambda>i. i < length a)) ?inum"
    unfolding list_all_iff
  proof (intro ballI)
    fix row i assume "row \<in> set ?inum" "i \<in> set row"
    from \<open>row \<in> set ?inum\<close>
    have "row \<in> (\<lambda>j. map (\<lambda>l. (2 * (j + 1) - 1) * K + l) [0..<K]) ` set [0..<J]"
      by (simp only: set_map)
    then obtain j where j: "j \<in> set [0..<J]" "row = map (\<lambda>l. (2 * (j + 1) - 1) * K + l) [0..<K]"
      by (rule imageE)
    with \<open>i \<in> set row\<close> have "i \<in> (\<lambda>l. (2 * (j + 1) - 1) * K + l) ` set [0..<K]"
      by (simp only: set_map)
    then obtain l where "l \<in> set [0..<K]" "i = (2 * (j + 1) - 1) * K + l"
      by (rule imageE)
    with j(1) have "j \<in> set [0..<J]" "l \<in> set [0..<K]" "i = (2 * (j + 1) - 1) * K + l"
      by simp_all
    then have "j < J" "l < K" by simp_all
    with \<open>i = _\<close> have "j < J" "l < K" "i = (2 * (j + 1) - 1) * K + l" by simp_all
    then show "i < length a" using y_index_bound(1) [of j J l K] L by simp
  qed
  then have 1: "np_take a ?inum = Inr (map (map (nth a)) ?inum)"
    by (rule np_take_Inr)
  have "list_all (list_all (\<lambda>i. i < length a)) ?iden"
    unfolding list_all_iff
  proof (intro ballI)
    fix row i assume "row \<in> set ?iden" "i \<in> set row"
    from \<open>row \<in> set ?iden\<close>
    have "row \<in> (\<lambda>j. map (\<lambda>l. j * (2 * K) + l) [0..<2 * K]) ` set [0..<J]"
      by (simp only: set_map)
    then obtain j where j: "j \<in> set [0..<J]" "row = map (\<lambda>l. j * (2 * K) + l) [0..<2 * K]"
      by (rule imageE)
    with \<open>i \<in> set row\<close> have "i \<in> (\<lambda>l. j * (2 * K) + l) ` set [0..<2 * K]"
      by (simp only: set_map)
    then obtain l where "l \<in> set [0..<2 * K]" "i = j * (2 * K) + l"
      by (rule imageE)
    with j(1) have "j \<in> set [0..<J]" "l \<in> set [0..<2 * K]" "i = j * (2 * K) + l"
      by simp_all
    then have "j < J" "l < 2 * K" by simp_all
    with \<open>i = _\<close> have "j < J" "l < 2 * K" "i = j * (2 * K) + l" by simp_all
    then show "i < length a" using y_index_bound(2) [of j J l K] L by simp
  qed
  then have 2: "np_take a ?iden = Inr (map (map (nth a)) ?iden)"
    by (rule np_take_Inr)
  have "get_alpha_y a n k =
          Inr (map (\<lambda>d. 2 * arcsin (sqrt d))
                 (map2 (\<lambda>nu de. if de \<noteq> 0 then nu / de else 0)
                    (map (\<lambda>row. sum_list (map (\<lambda>x. \<bar>x\<bar> ^ 2) row)) (map (map (nth a)) ?inum))
                    (map (\<lambda>row. sum_list (map (\<lambda>x. \<bar>x\<bar> ^ 2) row)) (map (map (nth a)) ?iden))))"
    using k 1 2 unfolding get_alpha_y_def Let_def K2 K_def [symmetric] J_def [symmetric]
    by simp
  also have "map2 (\<lambda>nu de. if de \<noteq> 0 then nu / de else 0)
                    (map (\<lambda>row. sum_list (map (\<lambda>x. \<bar>x\<bar> ^ 2) row)) (map (map (nth a)) ?inum))
                    (map (\<lambda>row. sum_list (map (\<lambda>x. \<bar>x\<bar> ^ 2) row)) (map (map (nth a)) ?iden))
             = map (\<lambda>j. if alpha_y_denominator a (2 * K) j \<noteq> 0
                         then alpha_y_numerator a K j / alpha_y_denominator a (2 * K) j
                         else 0) [0..<J]"
    by (simp add: map2_map_map alpha_y_numerator_def alpha_y_denominator_def comp_def)
  finally show ?thesis by (simp add: comp_def K2 flip: K_def J_def)
qed

lemma get_alpha_y_length:
  "get_alpha_y a n k = Inr v \<Longrightarrow> length v = 2 ^ nat (n - k)"
  by (auto simp: get_alpha_y_def np_take_def Let_def split: if_splits)

lemma get_alpha_z_length:
  "get_alpha_z omega n k = Inr v \<Longrightarrow> length v = 2 ^ nat (n - k)"
  by (auto simp: get_alpha_z_def np_take_def Let_def split: if_splits)

text \<open>
  Claim C6: for \<open>n \<ge> 1\<close>, \<open>1 \<le> k \<le> n\<close> and a phase vector \<open>omega\<close> of length
  \<open>2^n\<close>, \<open>_get_alpha_z\<close> returns a vector of length \<open>2^(n-k)\<close> whose entry
  \<open>j - 1\<close>, for \<open>j\<close> from \<open>1\<close> to \<open>2^(n-k)\<close>, is the sum over \<open>l\<close> from \<open>1\<close> to
  \<open>2^(k-1)\<close> of
  \<open>(omega[(2j-1) * 2^(k-1) + l - 1] - omega[(2j-2) * 2^(k-1) + l - 1]) / 2^(k-1)\<close>.
\<close>

theorem get_alpha_z_formula:
  assumes "1 \<le> n" "1 \<le> k" "k \<le> n" "length omega = 2 ^ nat n"
  shows "\<exists>v. get_alpha_z omega n k = Inr v \<and> length v = 2 ^ nat (n - k) \<and>
           (\<forall>j \<in> {1..2 ^ nat (n - k)}.
              v ! (j - 1) =
                (\<Sum>l = 1..2 ^ nat (k - 1).
                   (omega ! ((2 * j - 1) * 2 ^ nat (k - 1) + l - 1) -
                    omega ! ((2 * j - 2) * 2 ^ nat (k - 1) + l - 1)) / 2 ^ nat (k - 1)))"
proof -
  let ?K = "(2::nat) ^ nat (k - 1)" and ?J = "(2::nat) ^ nat (n - k)"
  let ?v = "map (\<lambda>j. sum_list (map (alpha_z_formula omega ?K j) [1..<?K + 1])) [1..<?J + 1]"
  have A: "get_alpha_z omega n k = Inr ?v"
    using assms(2-4) by (rule get_alpha_z_closed)
  have B: "length ?v = ?J" by simp
  have C: "?v ! (j - 1) = (\<Sum>l = 1..?K. alpha_z_formula omega ?K j l)" if "j \<in> {1..?J}" for j
  proof -
    have "1 + (j - 1) < ?J + 1" using that by simp
    then have "[1..<?J + 1] ! (j - 1) = 1 + (j - 1)" by (rule nth_upt)
    moreover have "1 + (j - 1) = j" using that by simp
    moreover have "j - 1 < length [1..<?J + 1]" using that by auto
    ultimately have "j - 1 < length [1..<?J + 1]" "[1..<?J + 1] ! (j - 1) = j" by simp_all
    then have "?v ! (j - 1) = sum_list (map (alpha_z_formula omega ?K j) [1..<?K + 1])"
      by (simp only: nth_map)
    also have "\<dots> = (\<Sum>l = 1..?K. alpha_z_formula omega ?K j l)"
      by (simp only: interv_sum_list_conv_sum_set_nat set_upt) (simp add: atLeastLessThanSuc_atLeastAtMost)
    finally show ?thesis .
  qed
  show ?thesis
  proof (intro exI conjI ballI)
    show "get_alpha_z omega n k = Inr ?v" by (fact A)
    show "length ?v = ?J" by (fact B)
    fix j assume "j \<in> {1..?J}"
    from C [OF this]
    show "?v ! (j - 1) =
            (\<Sum>l = 1..?K. (omega ! ((2 * j - 1) * ?K + l - 1) -
                            omega ! ((2 * j - 2) * ?K + l - 1)) / 2 ^ nat (k - 1))"
      unfolding alpha_z_formula_def by simp
  qed
qed

theorem get_alpha_z_formula_witness:
  "(1::int) \<le> 1 \<and> length [0, 1 :: real] = 2 ^ nat 1 \<and> get_alpha_z [0, 1] 1 1 = Inr [1]"
proof -
  have "\<exists>v. get_alpha_z [0, 1] 1 1 = Inr v \<and> length v = 2 ^ nat (1 - 1) \<and>
           (\<forall>j \<in> {1..2 ^ nat (1 - 1)}.
              v ! (j - 1) =
                (\<Sum>l = 1..2 ^ nat (1 - 1).
                   ([0, 1 :: real] ! ((2 * j - 1) * 2 ^ nat (1 - 1) + l - 1) -
                    [0, 1] ! ((2 * j - 2) * 2 ^ nat (1 - 1) + l - 1)) / 2 ^ nat (1 - 1)))"
    by (rule get_alpha_z_formula) simp_all
  then obtain v where "get_alpha_z [0, 1] 1 1 = Inr v" "length v = 1" "v ! 0 = 1"
    by auto
  then show ?thesis by (cases v) auto
qed

text \<open>
  Claim C4: for \<open>n \<ge> 1\<close>, \<open>1 \<le> k \<le> n\<close> and an amplitude vector \<open>a\<close> of length
  \<open>2^n\<close>, \<open>_get_alpha_y\<close> returns a vector of length \<open>2^(n-k)\<close> whose entry \<open>j\<close>
  is \<open>2 * arcsin (sqrt (numerator / denominator))\<close>, with the numerator the sum of
  \<open>a[(2j+1) * 2^(k-1) + l]^2\<close> over \<open>l < 2^(k-1)\<close> and the denominator the sum of
  \<open>a[j * 2^k + l]^2\<close> over \<open>l < 2^k\<close>; where the denominator is zero the entry is
  zero, by the masked division.
\<close>

theorem get_alpha_y_formula:
  assumes "1 \<le> n" "1 \<le> k" "k \<le> n" "length a = 2 ^ nat n"
  shows "\<exists>v. get_alpha_y a n k = Inr v \<and> length v = 2 ^ nat (n - k) \<and>
           (\<forall>j < 2 ^ nat (n - k).
              let numerator = (\<Sum>l < 2 ^ nat (k - 1). (a ! ((2 * j + 1) * 2 ^ nat (k - 1) + l))\<^sup>2);
                  denominator = (\<Sum>l < 2 ^ nat k. (a ! (j * 2 ^ nat k + l))\<^sup>2)
              in v ! j = (if denominator = 0 then 0
                          else 2 * arcsin (sqrt (numerator / denominator))))"
proof -
  let ?K = "(2::nat) ^ nat (k - 1)" and ?J = "(2::nat) ^ nat (n - k)"
  let ?f = "\<lambda>j. 2 * arcsin (sqrt
                         (if alpha_y_denominator a (2 ^ nat k) j \<noteq> 0
                          then alpha_y_numerator a ?K j / alpha_y_denominator a (2 ^ nat k) j
                          else 0))"
  have "get_alpha_y a n k = Inr (map ?f [0..<?J])"
    using assms(2-4) by (rule get_alpha_y_closed)
  moreover have "length (map ?f [0..<?J]) = ?J" by simp
  moreover have num: "alpha_y_numerator a ?K j = (\<Sum>l < ?K. (a ! ((2 * j + 1) * ?K + l))\<^sup>2)" for j
    unfolding alpha_y_numerator_def
    by (simp only: interv_sum_list_conv_sum_set_nat set_upt) (simp add: atLeast0LessThan)
  moreover have den: "alpha_y_denominator a (2 ^ nat k) j = (\<Sum>l < 2 ^ nat k. (a ! (j * 2 ^ nat k + l))\<^sup>2)" for j
    unfolding alpha_y_denominator_def
    by (simp only: interv_sum_list_conv_sum_set_nat set_upt) (simp add: atLeast0LessThan)
  ultimately show ?thesis
    by (intro exI [of _ "map ?f [0..<?J]"]) (simp add: Let_def)
qed

theorem get_alpha_y_formula_witness:
  "(1::int) \<le> 1 \<and> length [0, 1 :: real] = 2 ^ nat 1 \<and> get_alpha_y [0, 1] 1 1 = Inr [pi]"
proof -
  have "\<exists>v. get_alpha_y [0, 1] 1 1 = Inr v \<and> length v = 2 ^ nat (1 - 1) \<and>
           (\<forall>j < 2 ^ nat (1 - 1).
              let numerator = (\<Sum>l < 2 ^ nat (1 - 1). ([0, 1 :: real] ! ((2 * j + 1) * 2 ^ nat (1 - 1) + l))\<^sup>2);
                  denominator = (\<Sum>l < 2 ^ nat 1. ([0, 1 :: real] ! (j * 2 ^ nat 1 + l))\<^sup>2)
              in v ! j = (if denominator = 0 then 0
                          else 2 * arcsin (sqrt (numerator / denominator))))"
    by (rule get_alpha_y_formula) simp_all
  then obtain v where "get_alpha_y [0, 1] 1 1 = Inr v" "length v = 1" "v ! 0 = pi"
    by (auto simp: Let_def lessThan_Suc numeral_2_eq_2)
  then show ?thesis by (cases v) auto
qed

text \<open>
  Claim C10: for \<open>n \<ge> 1\<close> and \<open>1 \<le> k \<le> n\<close>, whatever \<open>_get_alpha_y\<close> and
  \<open>_get_alpha_z\<close> return has length exactly \<open>2^(n-k)\<close>, which is at least \<open>1\<close>; on
  vectors of the length \<open>2^n\<close> that the driver has validated they do return. So the
  Y-cascade never passes an empty vector on, the guard \<open>len(alpha_z_k) > 0\<close> of the
  Z-cascade holds at every \<open>k\<close>, and the iteration \<open>k\<close> of the Z-cascade always calls
  the expander before it goes on to \<open>k - 1\<close>.
\<close>

theorem alpha_vectors_nonempty:
  fixes n k :: nat
  assumes k: "1 \<le> k" "k \<le> n"
  shows "(\<forall>v. get_alpha_y a (int n) (int k) = Inr v \<longrightarrow> length v = 2 ^ (n - k) \<and> 1 \<le> length v) \<and>
         (\<forall>v. get_alpha_z omega (int n) (int k) = Inr v \<longrightarrow> length v = 2 ^ (n - k) \<and> 1 \<le> length v) \<and>
         (length a = 2 ^ n \<longrightarrow> (\<exists>v. get_alpha_y a (int n) (int k) = Inr v \<and> v \<noteq> [])) \<and>
         (length omega = 2 ^ n \<longrightarrow>
            (\<exists>v. get_alpha_z omega (int n) (int k) = Inr v \<and> 0 < length v \<and>
               (\<forall>(wires_reverse :: 'w list) q. length wires_reverse = n \<longrightarrow>
                  z_cascade omega n wires_reverse k q =
                    (case uniform_rotation_dagger RZ v (drop k wires_reverse)
                            (wires_reverse ! (k - 1)) q of
                       (q', Some e) \<Rightarrow> (q', Some e)
                     | (q', None) \<Rightarrow> z_cascade omega n wires_reverse (k - 1) q'))))"
proof (intro conjI allI impI)
  have nk: "nat (int n - int k) = n - k" by simp
  have ik: "1 \<le> int k" "int k \<le> int n" using k by simp_all
  {
    fix v assume "get_alpha_y a (int n) (int k) = Inr v"
    then show "length v = 2 ^ (n - k)" using get_alpha_y_length [of a "int n" "int k" v] nk by simp
    then show "1 \<le> length v" by simp
  next
    fix v assume "get_alpha_z omega (int n) (int k) = Inr v"
    then show "length v = 2 ^ (n - k)" using get_alpha_z_length [of omega "int n" "int k" v] nk by simp
    then show "1 \<le> length v" by simp
  next
    assume "length a = 2 ^ n"
    then have "length a = 2 ^ nat (int n)" by simp
    from get_alpha_y_closed [OF ik this] obtain v where v: "get_alpha_y a (int n) (int k) = Inr v"
      by blast
    from get_alpha_y_length [OF v] have "v \<noteq> []" by auto
    with v show "\<exists>v. get_alpha_y a (int n) (int k) = Inr v \<and> v \<noteq> []" by blast
  next
    assume "length omega = 2 ^ n"
    then have "length omega = 2 ^ nat (int n)" by simp
    from get_alpha_z_closed [OF ik this] obtain v where v: "get_alpha_z omega (int n) (int k) = Inr v"
      by blast
    from get_alpha_z_length [OF v] have pos: "0 < length v" by simp
    obtain k' where k': "k = Suc k'" using k by (cases k) auto
    have "z_cascade omega n wires_reverse k q =
            (case uniform_rotation_dagger RZ v (drop k wires_reverse)
                    (wires_reverse ! (k - 1)) q of
               (q', Some e) \<Rightarrow> (q', Some e)
             | (q', None) \<Rightarrow> z_cascade omega n wires_reverse (k - 1) q')"
      if "length wires_reverse = n" for wires_reverse :: "'w list" and q
    proof -
      have "\<not> length wires_reverse \<le> k'" using that k k' by linarith
      moreover have e: "k - 1 = k'" using k' by simp
      ultimately show ?thesis
        using v pos unfolding e unfolding k' by (simp del: of_nat_Suc)
    qed
    with v pos show "\<exists>v. get_alpha_z omega (int n) (int k) = Inr v \<and> 0 < length v \<and>
                 (\<forall>(wires_reverse :: 'w list) q. length wires_reverse = n \<longrightarrow>
                    z_cascade omega n wires_reverse k q =
                      (case uniform_rotation_dagger RZ v (drop k wires_reverse)
                              (wires_reverse ! (k - 1)) q of
                         (q', Some e) \<Rightarrow> (q', Some e)
                       | (q', None) \<Rightarrow> z_cascade omega n wires_reverse (k - 1) q'))"
      by blast
  }
qed

theorem alpha_vectors_nonempty_witness:
  "(1::nat) \<le> 1 \<and> length [0, 1 :: real] = 2 ^ 1 \<and>
   get_alpha_y [0, 1] (int 1) (int 1) = Inr [pi] \<and>
   get_alpha_z [0, 1] (int 1) (int 1) = Inr [1] \<and>
   z_cascade [0, 1] 1 [''w''] 1 [] =
     (case uniform_rotation_dagger RZ [1] (drop 1 [''w'']) ([''w''] ! (1 - 1)) [] of
        (q', Some e) \<Rightarrow> (q', Some e)
      | (q', None) \<Rightarrow> z_cascade [0, 1] 1 [''w''] (1 - 1) q')"
proof -
  have y: "get_alpha_y [0, 1] (int 1) (int 1) = Inr [pi]"
    using get_alpha_y_closed [of 1 1 "[0, 1]"]
    by (simp add: alpha_y_numerator_def alpha_y_denominator_def numeral_2_eq_2)
  have z: "get_alpha_z [0, 1] (int 1) (int 1) = Inr [1]"
    using get_alpha_z_closed [of 1 1 "[0, 1]"]
    by (simp add: alpha_z_formula_def)
  from alpha_vectors_nonempty [of 1 1 "[0, 1]" "[0, 1]", where 'w = string] z
  have "z_cascade [0, 1] 1 [''w''] 1 [] =
     (case uniform_rotation_dagger RZ [1] (drop 1 [''w'']) ([''w''] ! (1 - 1)) [] of
        (q', Some e) \<Rightarrow> (q', Some e)
      | (q', None) \<Rightarrow> z_cascade [0, 1] 1 [''w''] (1 - 1) q')"
    by auto
  with y z show ?thesis by simp
qed


section \<open>Properties of the sign matrix and of the rotation expander\<close>

lemma bits_split:
  "{n. bit (b::int) n} = (if odd b then {0} else {}) \<union> Suc ` {n. bit (b div 2) n}"
proof (rule set_eqI)
  fix n show "n \<in> {n. bit b n} \<longleftrightarrow> n \<in> (if odd b then {0} else {}) \<union> Suc ` {n. bit (b div 2) n}"
    by (cases n) (auto simp: bit_0 bit_Suc)
qed

lemma count_ones_loop_popcount:
  "0 \<le> b \<Longrightarrow> finite {n. bit b n} \<and> count_ones_loop b s = s + card {n. bit b n}"
proof (induction b s rule: count_ones_loop.induct)
  case (1 b s)
  show ?case
  proof (cases "0 < b")
    case False
    with 1(2) have "b = 0" by simp
    then show ?thesis by (simp add: count_ones_loop.simps [of 0])
  next
    case True
    let ?S = "{n. bit (b div 2) n}"
    have IH: "finite ?S \<and>
        count_ones_loop (b div 2) (if b AND 1 \<noteq> 0 then s + 1 else s) =
          (if b AND 1 \<noteq> 0 then s + 1 else s) + card ?S"
      using "1.IH" [OF True] True by (simp add: drop_bit_eq_div)
    have odd: "b AND 1 \<noteq> 0 \<longleftrightarrow> odd b" by (simp add: and_one_eq mod_2_eq_odd)
    have finS: "finite ?S" using IH by simp
    have fin: "finite {n. bit b n}" using finS by (subst bits_split) simp
    have "card {n. bit b n} = (if odd b then 1 else 0) + card ?S"
    proof -
      have "card (Suc ` ?S) = card ?S" by (rule card_image) simp
      moreover have "card ({0} \<union> Suc ` ?S) = Suc (card (Suc ` ?S))" using finS by (subst card_Un_disjoint) auto
      ultimately show ?thesis by (subst bits_split) simp
    qed
    moreover have "count_ones_loop b s = count_ones_loop (b div 2) (if b AND 1 \<noteq> 0 then s + 1 else s)"
      using True by (subst count_ones_loop.simps) (simp add: drop_bit_eq_div)
    ultimately show ?thesis using IH fin odd by (simp split: if_splits)
  qed
qed

lemma matrix_M_entry_popcount:
  "0 \<le> row \<Longrightarrow> 0 \<le> col \<Longrightarrow>
   matrix_M_entry row col = (- 1) ^ popcount (row AND (drop_bit 1 col XOR col))"
  using count_ones_loop_popcount [of "row AND (drop_bit 1 col XOR col)" 0]
  by (simp add: matrix_M_entry_def popcount_def Let_def)

lemma matrix_M_entry_sign: "matrix_M_entry row col = 1 \<or> matrix_M_entry row col = - 1"
  unfolding matrix_M_entry_def Let_def
  by (cases "even (count_ones_loop (row AND (drop_bit 1 col XOR col)) 0)") simp_all

lemma map2_upt:
  "map2 g (map f [0..<length v]) v = map (\<lambda>j. g (f j) (v ! j)) [0..<length v]"
  by (rule nth_equalityI) simp_all

lemma matvec_row:
  "sum_list (map2 (*) (map f [0..<length v]) v) = (\<Sum>j < length v. f j * v ! j)"
  by (simp only: map2_upt interv_sum_list_conv_sum_set_nat set_upt) (simp add: atLeast0LessThan)

lemma compute_theta_closed:
  assumes "alpha \<noteq> []"
  shows "compute_theta alpha =
           map (\<lambda>i. (\<Sum>j < length alpha. sign_matrix i j * alpha ! j) / real (length alpha))
               [0..<length alpha]"
proof -
  have "2 powr log 2 (real (length alpha)) = real (length alpha)"
    using assms by (intro powr_log_cancel) simp_all
  then show ?thesis
    by (simp add: compute_theta_def matvec_def Let_def matvec_row sign_matrix_def comp_def)
qed

lemma compute_theta_length [simp]: "length (compute_theta alpha) = length alpha"
  by (simp add: compute_theta_def matvec_def Let_def)


text \<open>
  Claim C2, as the code has it: for \<open>alpha\<close> of length \<open>L = 2^r\<close>, the computed
  \<open>theta\<close> is \<open>(M @ alpha) / L\<close> where \<open>M[i][j] = entry(j, i)\<close> for the zero-based
  \<open>i\<close> and \<open>j\<close> themselves (the loop indices are passed on with no shift to
  one-based), \<open>entry(row, col)\<close> is \<open>(-1)\<close> to the number of set bits of
  \<open>row AND ((col >> 1) XOR col)\<close>, and every entry of \<open>M\<close> is \<open>+1\<close> or \<open>-1\<close>.
\<close>

theorem compute_theta_sign_matrix:
  assumes "length alpha = 2 ^ r"
  shows "length (compute_theta alpha) = length alpha \<and>
         (\<forall>i < length alpha.
            compute_theta alpha ! i =
              (\<Sum>j < length alpha. sign_matrix i j * alpha ! j) / real (length alpha)) \<and>
         (\<forall>i j. sign_matrix i j = real_of_int (matrix_M_entry (int j) (int i)) \<and>
                matrix_M_entry (int j) (int i) =
                  (- 1) ^ popcount (int j AND (drop_bit 1 (int i) XOR int i)) \<and>
                (sign_matrix i j = 1 \<or> sign_matrix i j = - 1))"
proof -
  have "alpha \<noteq> []" using assms by auto
  then have "compute_theta alpha ! i =
              (\<Sum>j < length alpha. sign_matrix i j * alpha ! j) / real (length alpha)"
    if "i < length alpha" for i
    using that by (simp add: compute_theta_closed)
  moreover have "matrix_M_entry (int j) (int i) =
                  (- 1) ^ popcount (int j AND (drop_bit 1 (int i) XOR int i))" for i j
    by (rule matrix_M_entry_popcount) simp_all
  moreover have "sign_matrix i j = 1 \<or> sign_matrix i j = - 1" for i j
    using matrix_M_entry_sign [of "int j" "int i"] by (auto simp: sign_matrix_def)
  ultimately show ?thesis by (simp add: sign_matrix_def)
qed

theorem compute_theta_sign_matrix_witness:
  "length [1, 3 :: real] = 2 ^ 1 \<and> compute_theta [1, 3] ! 1 = - 1 \<and> sign_matrix 1 1 = - 1"
proof -
  have l: "length [1, 3 :: real] = 2 ^ 1" by simp
  have *: "compute_theta [1, 3] ! i =
             (\<Sum>j < length [1, 3 :: real]. sign_matrix i j * [1, 3] ! j) /
             real (length [1, 3 :: real])"
    if "i < length [1, 3 :: real]" for i
    using compute_theta_sign_matrix [OF l] that by blast
  have s: "sign_matrix 1 0 = 1" "sign_matrix 1 1 = - 1"
    by (simp_all add: sign_matrix_def matrix_M_entry_def
        count_ones_loop.simps [of 1] count_ones_loop.simps [of 0])
  have "compute_theta [1, 3] ! 1 = (sign_matrix 1 0 * 1 + sign_matrix 1 1 * 3) / 2"
    using * [of 1] by simp
  with s show ?thesis by simp
qed

text \<open>
  With the one-based arguments of the claim the single entry of the matrix for
  \<open>L = 1\<close> would be \<open>entry(1, 1) = -1\<close>; the code uses \<open>entry(0, 0) = 1\<close>.
\<close>

theorem compute_theta_one_based_counterexample:
  "compute_theta [1] = [1] \<and> compute_theta_one_based [1] = [- 1] \<and>
   compute_theta [1] \<noteq> compute_theta_one_based [1]"
proof -
  have "compute_theta [1] = [1]"
    by (simp add: compute_theta_closed sign_matrix_def matrix_M_entry_def
        count_ones_loop.simps [of 0])
  moreover have "compute_theta_one_based [1] = [- 1]"
    by (simp add: compute_theta_one_based_def sign_matrix_one_based_def matrix_M_entry_def
        count_ones_loop.simps [of 1] count_ones_loop.simps [of 0])
  ultimately show ?thesis by simp
qed

lemma binary_value_snoc:
  "binary_value (s @ [c]) = 2 * binary_value s + (if c = CHR ''1'' then 1 else 0)"
  by (simp add: binary_value_def)

lemma int_base2_Some:
  "s \<noteq> [] \<Longrightarrow> binary_string s \<Longrightarrow> int_base2 s = Some (binary_value s)"
  by (simp add: int_base2_def binary_value_def)

lemma binary_value_less: "binary_value s < 2 ^ length s"
  by (induction s rule: rev_induct) (simp_all add: binary_value_snoc binary_value_def)

lemma xor_double_bit:
  fixes x y :: nat
  assumes "a \<le> 1" "b \<le> 1"
  shows "(2 * x + a) XOR (2 * y + b) = 2 * (x XOR y) + (if a = b then 0 else 1)"
proof -
  have "a = 0 \<or> a = 1" "b = 0 \<or> b = 1" using assms by auto
  then show ?thesis
    by (subst xor_nat_rec) (auto simp: )
qed

lemma count_diff_snoc:
  "length s = length t \<Longrightarrow>
   count_diff (s @ [c]) (t @ [d]) = count_diff s t + (if c = d then 0 else 1)"
  by (simp add: count_diff_def)

lemma count_diff_zero:
  "length s = length t \<Longrightarrow> count_diff s t = 0 \<Longrightarrow> s = t"
  by (induction s t rule: list_induct2) (auto simp: count_diff_def split: if_splits)

lemma differ_one_bit_xor:
  "length s = length t \<Longrightarrow> binary_string s \<Longrightarrow> binary_string t \<Longrightarrow> count_diff s t = 1 \<Longrightarrow>
   \<exists>p < length s. binary_value s XOR binary_value t = 2 ^ p"
proof (induction s arbitrary: t rule: rev_induct)
  case Nil
  then show ?case by (simp add: count_diff_def)
next
  case (snoc c s)
  from snoc.prems(1) obtain d t' where t: "t = t' @ [d]" and len: "length s = length t'"
    by (cases t rule: rev_cases) auto
  have bin: "binary_string s" "binary_string t'" "c = CHR ''0'' \<or> c = CHR ''1''" "d = CHR ''0'' \<or> d = CHR ''1''"
    using snoc.prems(2,3) by (auto simp: binary_string_def t)
  have cd: "count_diff s t' + (if c = d then 0 else 1) = 1"
    using snoc.prems(4) count_diff_snoc [OF len] by (simp add: t)
  have x: "binary_value (s @ [c]) XOR binary_value t =
             2 * (binary_value s XOR binary_value t') + (if c = d then 0 else 1)"
    using bin(3,4) unfolding t binary_value_snoc
    by (subst xor_double_bit) auto
  show ?case
  proof (cases "c = d")
    case True
    with cd have "count_diff s t' = 1" by simp
    from snoc.IH [OF len bin(1,2) this] obtain p where "p < length s"
      "binary_value s XOR binary_value t' = 2 ^ p" by blast
    then have "Suc p < length (s @ [c])" "binary_value (s @ [c]) XOR binary_value t = 2 ^ Suc p"
      using x True by simp_all
    then show ?thesis by blast
  next
    case False
    with cd have "count_diff s t' = 0" by simp
    from count_diff_zero [OF len this] have "s = t'" .
    then have "binary_value (s @ [c]) XOR binary_value t = 2 ^ 0" using x False by simp
    moreover have "0 < length (s @ [c])" by simp
    ultimately show ?thesis by blast
  qed
qed

lemma int_log2_power: "int_log2 (2 ^ p) = Inr p"
proof -
  have "floorlog 2 (Suc 0) = 1" by (simp add: floorlog_def)
  then show ?thesis using floorlog_power [of 1 2 p] by (simp add: int_log2_def)
qed

lemma control_index_adjacent:
  assumes "differ_one_bit s t" "binary_string s" "binary_string t" "s \<noteq> []"
  shows "\<exists>p < length s. control_index s t = Inr p \<and>
           the (int_base2 s) XOR the (int_base2 t) = 2 ^ p"
proof -
  have len: "length s = length t" and cd: "count_diff s t = 1"
    using assms(1) by (simp_all add: differ_one_bit_def count_diff_def)
  then have "t \<noteq> []" using assms(4) by auto
  then have v: "int_base2 s = Some (binary_value s)" "int_base2 t = Some (binary_value t)"
    using assms by (simp_all add: int_base2_Some)
  from differ_one_bit_xor [OF len assms(2,3) cd] obtain p where
    p: "p < length s" "binary_value s XOR binary_value t = 2 ^ p" by blast
  then have "control_index s t = Inr p" by (simp add: control_index_def v int_log2_power)
  with p v show ?thesis by auto
qed

lemma collect_map_Inr:
  "(\<And>x. x \<in> set xs \<Longrightarrow> f x = Inr (g x)) \<Longrightarrow> collect (map f xs) = Inr (map g xs)"
  by (induction xs) simp_all

lemma rotation_cnot_loop_ok:
  "\<forall>p \<in> set ps. fst p < length theta \<and> snd p < length control_wires \<Longrightarrow>
   rotation_cnot_loop g theta control_wires target_wire ps q =
     (q @ concat (map (\<lambda>(i, ci). rotation_step g theta control_wires target_wire i ci) ps), None)"
proof (induction ps arbitrary: q)
  case Nil
  then show ?case by simp
next
  case (Cons p ps)
  obtain i ci where p: "p = (i, ci)" by (cases p)
  have "i < length theta" "ci < length control_wires" using Cons.prems p by simp_all
  moreover have "\<forall>p \<in> set ps. fst p < length theta \<and> snd p < length control_wires"
    using Cons.prems by simp
  ultimately show ?case
    using Cons.IH by (simp add: p rotation_step_def Let_def)
qed

lemma count_CNOT_steps:
  "length (filter is_CNOT (concat (map (\<lambda>i. rotation_step g theta cw t i (f i)) xs))) = length xs"
  by (induction xs) (simp_all add: rotation_step_def)


lemma uniform_rotation_dagger_controlled:
  fixes control_wires :: "'w list"
  assumes ne: "control_wires \<noteq> []" and len: "length alpha = 2 ^ length control_wires"
  shows "\<exists>idxs. control_indices (gray_code (int (length control_wires))) = Inr idxs \<and>
           length idxs = 2 ^ length control_wires \<and>
           (\<forall>i < 2 ^ length control_wires.
              idxs ! i < length control_wires \<and>
              the (int_base2 (gray_code (int (length control_wires)) ! i)) XOR
              the (int_base2 (gray_code (int (length control_wires)) !
                                ((i + 1) mod 2 ^ length control_wires))) = 2 ^ (idxs ! i)) \<and>
           uniform_rotation_dagger g alpha control_wires target_wire q =
             (q @ concat (map (\<lambda>i. rotation_step g (compute_theta alpha) control_wires target_wire
                                      i (idxs ! i))
                              [0..<2 ^ length control_wires]), None)"
proof -
  define r where "r = length control_wires"
  define code where "code = gray_code (int r)"
  define n :: nat where "n = 2 ^ r"
  define idx where "idx i = (case control_index (code ! i) (code ! ((i + 1) mod n)) of
                              Inr p \<Rightarrow> p | Inl e \<Rightarrow> 0)" for i
  have r: "1 \<le> int r" "nat (int r) = r" "r \<noteq> 0"
    using ne by (cases control_wires; simp add: r_def)+
  have inv: "gray_inv r code"
    using gray_code_inv [OF r(1)] by (simp add: code_def)
  then have lc: "length code = n" by (simp add: gray_inv_def n_def)
  have n0: "0 < n" by (simp add: n_def)
  have el: "length s = r \<and> binary_string s" if "s \<in> set code" for s
    using inv that by (simp add: gray_inv_def)
  have adj: "\<exists>p < r. control_index (code ! i) (code ! ((i + 1) mod n)) = Inr p \<and>
               the (int_base2 (code ! i)) XOR the (int_base2 (code ! ((i + 1) mod n))) = 2 ^ p"
    if "i < n" for i
  proof -
    have i1: "(i + 1) mod n < n" using n0 by simp
    have "cyclic_one_bit code" using inv by (simp add: gray_inv_def)
    then have "differ_one_bit (code ! i) (code ! ((i + 1) mod n))"
      using that unfolding cyclic_one_bit_def lc by blast
    moreover have "code ! i \<in> set code" "code ! ((i + 1) mod n) \<in> set code"
      using that i1 lc by simp_all
    then have "length (code ! i) = r" "binary_string (code ! i)"
      "binary_string (code ! ((i + 1) mod n))"
      using el by blast+
    moreover from this(1) have "code ! i \<noteq> []" using r(3) by auto
    ultimately show ?thesis
      using control_index_adjacent [of "code ! i" "code ! ((i + 1) mod n)"] by auto
  qed
  have idx: "control_index (code ! i) (code ! ((i + 1) mod n)) = Inr (idx i)" "idx i < r"
    "the (int_base2 (code ! i)) XOR the (int_base2 (code ! ((i + 1) mod n))) = 2 ^ idx i"
    if "i < n" for i
    using adj [OF that] by (auto simp: idx_def)
  have ci: "control_indices code = Inr (map idx [0..<n])"
    unfolding control_indices_def Let_def lc
    by (rule collect_map_Inr) (use idx(1) in simp)
  have zip: "zip [0..<length (map idx [0..<n])] (map idx [0..<n]) = map (\<lambda>i. (i, idx i)) [0..<n]"
    by (simp add: zip_map2 zip_same_conv_map)
  have "rotation_cnot_loop g (compute_theta alpha) control_wires target_wire
          (map (\<lambda>i. (i, idx i)) [0..<n]) q =
        (q @ concat (map (\<lambda>(i, ci). rotation_step g (compute_theta alpha) control_wires target_wire i ci)
                         (map (\<lambda>i. (i, idx i)) [0..<n])), None)"
    by (rule rotation_cnot_loop_ok) (use idx(2) len in \<open>auto simp: r_def n_def\<close>)
  also have "map (\<lambda>(i, ci). rotation_step g (compute_theta alpha) control_wires target_wire i ci)
                         (map (\<lambda>i. (i, idx i)) [0..<n])
           = map (\<lambda>i. rotation_step g (compute_theta alpha) control_wires target_wire i
                          (map idx [0..<n] ! i)) [0..<n]"
    by simp
  finally have "uniform_rotation_dagger g alpha control_wires target_wire q =
             (q @ concat (map (\<lambda>i. rotation_step g (compute_theta alpha) control_wires target_wire
                                      i (map idx [0..<n] ! i)) [0..<n]), None)"
    using r(3) ci zip by (simp add: uniform_rotation_dagger_def Let_def flip: r_def code_def)
  moreover have "\<forall>i < n. map idx [0..<n] ! i < r \<and>
              the (int_base2 (code ! i)) XOR the (int_base2 (code ! ((i + 1) mod n))) =
                2 ^ (map idx [0..<n] ! i)"
    using idx(2,3) by simp
  ultimately show ?thesis
    using ci unfolding r_def [symmetric] code_def [symmetric] n_def [symmetric]
    by (intro exI [of _ "map idx [0..<n]"]) simp
qed

lemma uniform_rotation_dagger_uncontrolled:
  "alpha \<noteq> [] \<Longrightarrow>
   uniform_rotation_dagger g alpha [] target_wire q =
     (if compute_theta alpha ! 0 \<noteq> 0
      then q @ [Rotation g (compute_theta alpha ! 0) target_wire] else q, None)"
  by (auto simp: uniform_rotation_dagger_def Let_def compute_theta_def matvec_def)

text \<open>
  Claim C3: with a non-empty list of \<open>r\<close> control wires and \<open>alpha\<close> of length
  \<open>2^r\<close>, the expander raises nothing and appends, for \<open>i = 0, ..., 2^r - 1\<close> in
  order, the rotation by \<open>theta[i]\<close> on the target wire exactly when
  \<open>theta[i] \<noteq> 0\<close>, and then always the bit-flip with control
  \<open>controlWires[controlIndices[i]]\<close>; \<open>controlIndices[i]\<close> is below \<open>r\<close> and is
  the exact binary logarithm of \<open>code[i] XOR code[(i+1) mod 2^r]\<close>, a power of two.
  Exactly \<open>2^r\<close> bit-flips are appended. With no control wire, it appends the
  single rotation by \<open>theta[0]\<close> if \<open>theta[0] \<noteq> 0\<close> and nothing otherwise.
\<close>

theorem uniform_rotation_dagger_sequence:
  fixes control_wires :: "'w list"
  shows
  "(control_wires \<noteq> [] \<and> length alpha = 2 ^ length control_wires \<longrightarrow>
      (\<exists>idxs. control_indices (gray_code (int (length control_wires))) = Inr idxs \<and>
         length idxs = 2 ^ length control_wires \<and>
         (\<forall>i < 2 ^ length control_wires.
            idxs ! i < length control_wires \<and>
            the (int_base2 (gray_code (int (length control_wires)) ! i)) XOR
            the (int_base2 (gray_code (int (length control_wires)) !
                              ((i + 1) mod 2 ^ length control_wires))) = 2 ^ (idxs ! i)) \<and>
         uniform_rotation_dagger g alpha control_wires target_wire q =
           (q @ concat (map (\<lambda>i. (if compute_theta alpha ! i \<noteq> 0
                                  then [Rotation g (compute_theta alpha ! i) target_wire] else []) @
                                 [CNOT (control_wires ! (idxs ! i)) target_wire])
                            [0..<2 ^ length control_wires]), None) \<and>
         length (filter is_CNOT
                   (concat (map (\<lambda>i. (if compute_theta alpha ! i \<noteq> 0
                                  then [Rotation g (compute_theta alpha ! i) target_wire] else []) @
                                 [CNOT (control_wires ! (idxs ! i)) target_wire])
                            [0..<2 ^ length control_wires]))) = 2 ^ length control_wires)) \<and>
   (control_wires = [] \<and> alpha \<noteq> [] \<longrightarrow>
      uniform_rotation_dagger g alpha control_wires target_wire q =
        (if compute_theta alpha ! 0 \<noteq> 0
         then q @ [Rotation g (compute_theta alpha ! 0) target_wire] else q, None))"
proof (intro conjI impI)
  assume "control_wires \<noteq> [] \<and> length alpha = 2 ^ length control_wires"
  then have ne: "control_wires \<noteq> []" and len: "length alpha = 2 ^ length control_wires"
    by simp_all
  from uniform_rotation_dagger_controlled [OF ne len, of g target_wire q]
  obtain idxs where
    1: "control_indices (gray_code (int (length control_wires))) = Inr idxs"
       "length idxs = 2 ^ length control_wires"
       "\<forall>i < 2 ^ length control_wires.
            idxs ! i < length control_wires \<and>
            the (int_base2 (gray_code (int (length control_wires)) ! i)) XOR
            the (int_base2 (gray_code (int (length control_wires)) !
                              ((i + 1) mod 2 ^ length control_wires))) = 2 ^ (idxs ! i)" and
    2: "uniform_rotation_dagger g alpha control_wires target_wire q =
             (q @ concat (map (\<lambda>i. rotation_step g (compute_theta alpha) control_wires target_wire
                                      i (idxs ! i))
                              [0..<2 ^ length control_wires]), None)"
    by blast
  have 3: "length (filter is_CNOT
             (concat (map (\<lambda>i. rotation_step g (compute_theta alpha) control_wires target_wire
                                  i (idxs ! i))
                          [0..<2 ^ length control_wires]))) = 2 ^ length control_wires"
    by (simp add: count_CNOT_steps)
  from 1 2 3 show "\<exists>idxs. control_indices (gray_code (int (length control_wires))) = Inr idxs \<and>
         length idxs = 2 ^ length control_wires \<and>
         (\<forall>i < 2 ^ length control_wires.
            idxs ! i < length control_wires \<and>
            the (int_base2 (gray_code (int (length control_wires)) ! i)) XOR
            the (int_base2 (gray_code (int (length control_wires)) !
                              ((i + 1) mod 2 ^ length control_wires))) = 2 ^ (idxs ! i)) \<and>
         uniform_rotation_dagger g alpha control_wires target_wire q =
           (q @ concat (map (\<lambda>i. (if compute_theta alpha ! i \<noteq> 0
                                  then [Rotation g (compute_theta alpha ! i) target_wire] else []) @
                                 [CNOT (control_wires ! (idxs ! i)) target_wire])
                            [0..<2 ^ length control_wires]), None) \<and>
         length (filter is_CNOT
                   (concat (map (\<lambda>i. (if compute_theta alpha ! i \<noteq> 0
                                  then [Rotation g (compute_theta alpha ! i) target_wire] else []) @
                                 [CNOT (control_wires ! (idxs ! i)) target_wire])
                            [0..<2 ^ length control_wires]))) = 2 ^ length control_wires"
    unfolding rotation_step_def by blast
next
  assume "control_wires = [] \<and> alpha \<noteq> []"
  then show "uniform_rotation_dagger g alpha control_wires target_wire q =
        (if compute_theta alpha ! 0 \<noteq> 0
         then q @ [Rotation g (compute_theta alpha ! 0) target_wire] else q, None)"
    using uniform_rotation_dagger_uncontrolled [of alpha g target_wire q] by simp
qed


theorem uniform_rotation_dagger_sequence_witness:
  "[''c''] \<noteq> [] \<and> length [1, 3 :: real] = 2 ^ length [''c''] \<and>
   uniform_rotation_dagger RY [1, 3] [''c''] ''t'' [] =
     ([Rotation RY 2 ''t'', CNOT ''c'' ''t'', Rotation RY (- 1) ''t'', CNOT ''c'' ''t''], None) \<and>
   [0 :: real] \<noteq> [] \<and>
   uniform_rotation_dagger RZ [0] ([] :: string list) ''t'' [] = ([], None)"
proof -
  have th: "compute_theta [1, 3] = [2, - 1]" "compute_theta [0] = [0]"
    by (simp_all add: compute_theta_closed sign_matrix_def matrix_M_entry_def
        count_ones_loop.simps [of 1] count_ones_loop.simps [of 0])
  note seq = uniform_rotation_dagger_sequence
  have "[''c''] \<noteq> [] \<and> length [1, 3 :: real] = 2 ^ length [''c'']" by simp
  with seq [of "[''c'']" "[1, 3]" RY "''t''" "[]"]
  obtain idxs where
    i: "\<forall>i < 2 ^ length [''c''].
            idxs ! i < length [''c''] \<and>
            the (int_base2 (gray_code (int (length [''c''])) ! i)) XOR
            the (int_base2 (gray_code (int (length [''c''])) !
                              ((i + 1) mod 2 ^ length [''c'']))) = 2 ^ (idxs ! i)" and
    u: "uniform_rotation_dagger RY [1, 3] [''c''] ''t'' [] =
       ([] @ concat (map (\<lambda>i. (if compute_theta [1, 3] ! i \<noteq> 0
                                  then [Rotation RY (compute_theta [1, 3] ! i) ''t''] else []) @
                                 [CNOT ([''c''] ! (idxs ! i)) ''t''])
                            [0..<2 ^ length [''c'']]), None)"
    by blast
  have e: "[0..<2 ^ length [''c'']] = [0, Suc 0]" by (simp add: numeral_2_eq_2)
  from i have "idxs ! 0 = 0" "idxs ! Suc 0 = 0" by simp_all
  with u
  have 1: "uniform_rotation_dagger RY [1, 3] [''c''] ''t'' [] =
     ([Rotation RY 2 ''t'', CNOT ''c'' ''t'', Rotation RY (- 1) ''t'', CNOT ''c'' ''t''], None)"
    unfolding e by (simp add: th)
  from seq [of "[] :: string list" "[0]" RZ "''t''" "[]"]
  have 2: "uniform_rotation_dagger RZ [0] ([] :: string list) ''t'' [] = ([], None)"
    by (simp add: th)
  from 1 2 show ?thesis by simp
qed


section \<open>Properties of the driver\<close>

lemma Arg_pos_real: "0 < x \<Longrightarrow> Arg (complex_of_real x) = 0"
  by (rule cis_Arg_unique) (simp_all add: sgn_eq complex_eq_iff)

lemma arcsin_sqrt_half: "arcsin (sqrt (1 / 2)) = pi / 4"
proof -
  have "sqrt (1 / 2) = sqrt 2 / 2"
    by (simp add: real_sqrt_divide real_div_sqrt)
  then have "sin (pi / 4) = sqrt (1 / 2)" by (simp add: sin_45)
  then have "arcsin (sqrt (1 / 2)) = arcsin (sin (pi / 4))" by simp
  also have "\<dots> = pi / 4" by (rule arcsin_sin) simp_all
  finally show ?thesis .
qed

lemma compute_theta_single: "compute_theta [x] = [x]"
  by (simp add: compute_theta_closed sign_matrix_def matrix_M_entry_def
      count_ones_loop.simps [of 0])

lemma compute_theta_pair: "compute_theta [x, y] = [(x + y) / 2, (x - y) / 2]"
  by (simp add: compute_theta_closed sign_matrix_def matrix_M_entry_def
      count_ones_loop.simps [of 1] count_ones_loop.simps [of 0])

lemma uniform_rotation_dagger_no_control:
  "uniform_rotation_dagger g [x] [] t q = (if x \<noteq> 0 then q @ [Rotation g x t] else q, None)"
  using uniform_rotation_dagger_uncontrolled [of "[x]" g t q] by (simp add: compute_theta_single)

lemma uniform_rotation_dagger_one_control:
  "uniform_rotation_dagger g [x, y] [c] t q =
     (q @ (if (x + y) / 2 \<noteq> 0 then [Rotation g ((x + y) / 2) t] else []) @ [CNOT c t] @
          (if (x - y) / 2 \<noteq> 0 then [Rotation g ((x - y) / 2) t] else []) @ [CNOT c t], None)"
proof -
  have "[c] \<noteq> []" "length [x, y] = 2 ^ length [c]" by simp_all
  from uniform_rotation_dagger_controlled [OF this, of g t q]
  obtain idxs where
    i: "\<forall>i < 2 ^ length [c]. idxs ! i < length [c] \<and>
            the (int_base2 (gray_code (int (length [c])) ! i)) XOR
            the (int_base2 (gray_code (int (length [c])) !
                              ((i + 1) mod 2 ^ length [c]))) = 2 ^ (idxs ! i)" and
    u: "uniform_rotation_dagger g [x, y] [c] t q =
             (q @ concat (map (\<lambda>i. rotation_step g (compute_theta [x, y]) [c] t i (idxs ! i))
                              [0..<2 ^ length [c]]), None)"
    by blast
  have e: "[0..<2 ^ length [c]] = [0, Suc 0]" by (simp add: numeral_2_eq_2)
  from i have "idxs ! 0 = 0" "idxs ! Suc 0 = 0" by simp_all
  with u show ?thesis
    unfolding e by (simp add: compute_theta_pair rotation_step_def)
qed


lemma uniform_amplitudes_alpha_y:
  "get_alpha_y [1 / 2, 1 / 2, 1 / 2, 1 / 2] 2 2 = Inr [pi / 2]"
  "get_alpha_y [1 / 2, 1 / 2, 1 / 2, 1 / 2] 2 1 = Inr [pi / 2, pi / 2]"
proof -
  have "get_alpha_y [1 / 2, 1 / 2, 1 / 2, 1 / 2] 2 2 = Inr [2 * arcsin (sqrt (1 / 2))]"
    using get_alpha_y_closed [of 2 2 "[1 / 2, 1 / 2, 1 / 2, 1 / 2]"]
    by (simp add: alpha_y_numerator_def alpha_y_denominator_def eval_nat_numeral power2_eq_square)
  then show "get_alpha_y [1 / 2, 1 / 2, 1 / 2, 1 / 2] 2 2 = Inr [pi / 2]"
    by (simp add: arcsin_sqrt_half)
  have "get_alpha_y [1 / 2, 1 / 2, 1 / 2, 1 / 2] 2 1 =
          Inr [2 * arcsin (sqrt (1 / 2)), 2 * arcsin (sqrt (1 / 2))]"
    using get_alpha_y_closed [of 1 2 "[1 / 2, 1 / 2, 1 / 2, 1 / 2]"]
    by (simp add: alpha_y_numerator_def alpha_y_denominator_def eval_nat_numeral power2_eq_square)
  then show "get_alpha_y [1 / 2, 1 / 2, 1 / 2, 1 / 2] 2 1 = Inr [pi / 2, pi / 2]"
    by (simp add: arcsin_sqrt_half)
qed

lemma zero_phases_alpha_z:
  "get_alpha_z [0, 0, 0, 0] 2 2 = Inr [0]"
  "get_alpha_z [0, 0, 0, 0] 2 1 = Inr [0, 0]"
  using get_alpha_z_closed [of 2 2 "[0, 0, 0, 0]"] get_alpha_z_closed [of 1 2 "[0, 0, 0, 0]"]
  by (simp_all add: alpha_z_formula_def eval_nat_numeral)

lemma uniform_rotation_dagger_ok:
  assumes "length alpha = 2 ^ length control_wires"
  shows "snd (uniform_rotation_dagger g alpha control_wires target_wire q) = None"
proof (cases "control_wires = []")
  case True
  with assms have "alpha \<noteq> []" by auto
  then show ?thesis
    using True uniform_rotation_dagger_uncontrolled [of alpha g target_wire q] by simp
next
  case False
  from uniform_rotation_dagger_controlled [OF False assms, of g target_wire q]
  show ?thesis by auto
qed

lemma y_cascade_ok:
  "k \<le> n \<Longrightarrow> length a = 2 ^ n \<Longrightarrow> length wires_reverse = n \<Longrightarrow>
   snd (y_cascade a n wires_reverse k q) = None"
proof (induction k arbitrary: q)
  case 0
  then show ?case by simp
next
  case (Suc k)
  have ik: "1 \<le> int (Suc k)" "int (Suc k) \<le> int n" using Suc.prems(1) by simp_all
  have "length a = 2 ^ nat (int n)" using Suc.prems(2) by simp
  from get_alpha_y_closed [OF ik this]
  obtain v where v: "get_alpha_y a (int n) (int (Suc k)) = Inr v" by blast
  from get_alpha_y_length [OF v] have "length v = 2 ^ (n - Suc k)"
    by (simp add: nat_diff_distrib')
  then have "length v = 2 ^ length (drop (Suc k) wires_reverse)" using Suc.prems(3) by simp
  from uniform_rotation_dagger_ok [OF this, of RY "wires_reverse ! k" q]
  obtain q' where q': "uniform_rotation_dagger RY v (drop (Suc k) wires_reverse)
                         (wires_reverse ! k) q = (q', None)"
    by (cases "uniform_rotation_dagger RY v (drop (Suc k) wires_reverse) (wires_reverse ! k) q") auto
  have "\<not> length wires_reverse \<le> k" using Suc.prems by simp
  then have "y_cascade a n wires_reverse (Suc k) q = y_cascade a n wires_reverse k q'"
    using v q' by (simp del: of_nat_Suc)
  moreover have "snd (y_cascade a n wires_reverse k q') = None"
    using Suc.IH [of q'] Suc.prems by simp
  ultimately show ?case by simp
qed

lemma z_cascade_ok:
  "k \<le> n \<Longrightarrow> length omega = 2 ^ n \<Longrightarrow> length wires_reverse = n \<Longrightarrow>
   snd (z_cascade omega n wires_reverse k q) = None"
proof (induction k arbitrary: q)
  case 0
  then show ?case by simp
next
  case (Suc k)
  have ik: "1 \<le> int (Suc k)" "int (Suc k) \<le> int n" using Suc.prems(1) by simp_all
  have "length omega = 2 ^ nat (int n)" using Suc.prems(2) by simp
  from get_alpha_z_closed [OF ik this]
  obtain v where v: "get_alpha_z omega (int n) (int (Suc k)) = Inr v" by blast
  from get_alpha_z_length [OF v] have lv: "length v = 2 ^ (n - Suc k)"
    by (simp add: nat_diff_distrib')
  then have "length v = 2 ^ length (drop (Suc k) wires_reverse)" using Suc.prems(3) by simp
  from uniform_rotation_dagger_ok [OF this, of RZ "wires_reverse ! k" q]
  obtain q' where q': "uniform_rotation_dagger RZ v (drop (Suc k) wires_reverse)
                         (wires_reverse ! k) q = (q', None)"
    by (cases "uniform_rotation_dagger RZ v (drop (Suc k) wires_reverse) (wires_reverse ! k) q") auto
  have "\<not> length wires_reverse \<le> k" using Suc.prems by simp
  moreover have "0 < length v" using lv by simp
  ultimately have "z_cascade omega n wires_reverse (Suc k) q = z_cascade omega n wires_reverse k q'"
    using v q' by (simp del: of_nat_Suc)
  moreover have "snd (z_cascade omega n wires_reverse k q') = None"
    using Suc.IH [of q'] Suc.prems by simp
  ultimately show ?case by simp
qed

text \<open>
  Claim C7, as the code has it, for wires with pairwise distinct labels (a repeated
  label is refused by \<open>Wires(wires)\<close> before any of the checks below, and that
  refusal is not part of \<open>MottonenStatePreparation\<close> here): the driver raises the
  shape error whenever the length of the input differs from \<open>2^N\<close>, and the
  normalization error whenever the length is right and the squared-magnitude sum
  deviates from \<open>1\<close> by more than \<open>1e-3 + 1e-5\<close> (\<open>np.isclose\<close> adds its default
  relative tolerance \<open>1e-5 * |1.0|\<close> to \<open>atol\<close>); in both cases nothing has been
  emitted. Within the tolerance the driver raises nothing at all. The input
  \<open>[1, 1]\<close> on one wire gets the normalization error.
\<close>

theorem validation_errors:
  assumes "distinct wires"
  shows
  "(length state_vector \<noteq> 2 ^ length wires \<longrightarrow>
      MottonenStatePreparation state_vector wires = ([], Some ShapeValueError)) \<and>
   (length state_vector = 2 ^ length wires \<and>
    \<bar>(\<Sum>z\<leftarrow>state_vector. (cmod z)\<^sup>2) - 1\<bar> > 1 / 1000 + 1 / 100000 \<longrightarrow>
      MottonenStatePreparation state_vector wires = ([], Some NormValueError)) \<and>
   (length state_vector = 2 ^ length wires \<and>
    \<bar>(\<Sum>z\<leftarrow>state_vector. (cmod z)\<^sup>2) - 1\<bar> \<le> 1 / 1000 + 1 / 100000 \<longrightarrow>
      snd (MottonenStatePreparation state_vector wires) = None) \<and>
   MottonenStatePreparation [1, 1] [w] = ([], Some NormValueError)"
proof (intro conjI impI)
  assume "length state_vector \<noteq> 2 ^ length wires"
  then show "MottonenStatePreparation state_vector wires = ([], Some ShapeValueError)"
    by (simp add: MottonenStatePreparation_def check_shape_def)
next
  assume "length state_vector = 2 ^ length wires \<and>
    \<bar>(\<Sum>z\<leftarrow>state_vector. (cmod z)\<^sup>2) - 1\<bar> > 1 / 1000 + 1 / 100000"
  then show "MottonenStatePreparation state_vector wires = ([], Some NormValueError)"
    by (simp add: MottonenStatePreparation_def check_shape_def np_isclose_def)
next
  assume a: "length state_vector = 2 ^ length wires \<and>
    \<bar>(\<Sum>z\<leftarrow>state_vector. (cmod z)\<^sup>2) - 1\<bar> \<le> 1 / 1000 + 1 / 100000"
  let ?n = "length wires"
  obtain qy where qy: "y_cascade (map cmod state_vector) ?n (rev wires) ?n [] = (qy, None)"
    using y_cascade_ok [of ?n ?n "map cmod state_vector" "rev wires" "[]"] a
    by (cases "y_cascade (map cmod state_vector) ?n (rev wires) ?n []") auto
  have "snd (z_cascade (map Arg state_vector) ?n (rev wires) ?n qy) = None"
    using z_cascade_ok [of ?n ?n "map Arg state_vector" "rev wires" qy] a by simp
  then show "snd (MottonenStatePreparation state_vector wires) = None"
    using a qy by (simp add: MottonenStatePreparation_def check_shape_def np_isclose_def Let_def)
next
  show "MottonenStatePreparation [1, 1] [w] = ([], Some NormValueError)"
    by (simp add: MottonenStatePreparation_def check_shape_def np_isclose_def)
qed

theorem validation_errors_witness:
  "distinct [''w''] \<and>
   length [1, 1, 1 :: complex] \<noteq> 2 ^ length [''w''] \<and>
   MottonenStatePreparation [1, 1, 1] [''w''] = ([], Some ShapeValueError) \<and>
   length [1, 1 :: complex] = 2 ^ length [''w''] \<and>
   \<bar>(\<Sum>z\<leftarrow>[1, 1 :: complex]. (cmod z)\<^sup>2) - 1\<bar> > 1 / 1000 + 1 / 100000 \<and>
   MottonenStatePreparation [1, 1] [''w''] = ([], Some NormValueError) \<and>
   length [1, 0 :: complex] = 2 ^ length [''w''] \<and>
   \<bar>(\<Sum>z\<leftarrow>[1, 0 :: complex]. (cmod z)\<^sup>2) - 1\<bar> \<le> 1 / 1000 + 1 / 100000 \<and>
   snd (MottonenStatePreparation [1, 0] [''w'']) = None"
  using validation_errors [of "[''w'']" "[1, 1, 1]" "''w''"]
    validation_errors [of "[''w'']" "[1, 1]" "''w''"]
    validation_errors [of "[''w'']" "[1, 0]" "''w''"]
  by simp

text \<open>
  The squared-magnitude sum of \<open>[1.0005, 0]\<close> is \<open>1.00100025\<close>, more than \<open>1e-3\<close>
  away from \<open>1\<close>, and no normalization error is raised.
\<close>

theorem normalization_tolerance_counterexample:
  "length [2001 / 2000, 0 :: complex] = 2 ^ length [''w''] \<and>
   \<bar>(\<Sum>z\<leftarrow>[2001 / 2000, 0 :: complex]. (cmod z)\<^sup>2) - 1\<bar> > 1 / 1000 \<and>
   MottonenStatePreparation [2001 / 2000, 0] [''w''] = ([], None)"
proof -
  have y: "get_alpha_y [2001 / 2000, 0] 1 1 = Inr [0]"
    using get_alpha_y_closed [of 1 1 "[2001 / 2000, 0]"]
    by (simp add: alpha_y_numerator_def alpha_y_denominator_def eval_nat_numeral)
  have z: "get_alpha_z [0, 0] 1 1 = Inr [0]"
    using get_alpha_z_closed [of 1 1 "[0, 0]"]
    by (simp add: alpha_z_formula_def)
  have om: "Arg (2001 / 2000) = 0" using Arg_pos_real [of "2001 / 2000"] by simp
  have "MottonenStatePreparation [2001 / 2000, 0] [''w''] = ([], None)"
    by (simp add: MottonenStatePreparation_def check_shape_def np_isclose_def Let_def
        norm_divide power2_eq_square om Arg_zero y z uniform_rotation_dagger_no_control)
  then show ?thesis by (simp add: norm_divide power2_eq_square)
qed

text \<open>
  Claim C8, as the code has it: for \<open>N = 2\<close> and the input \<open>[1/2, 1/2, 1/2, 1/2]\<close>
  the driver emits Y-rotations and bit-flips only. The step \<open>k = 2\<close> emits the single
  rotation by \<open>pi/2\<close> on the first wire. At \<open>k = 1\<close> both \<open>alpha\<close> angles are
  \<open>pi/2\<close>, so \<open>theta = [pi/2, 0]\<close>: the rotation by \<open>pi/2\<close> on the second wire is
  emitted, the second rotation is elided, and both bit-flips are emitted. The
  Z-cascade emits no rotation and, at \<open>k = 1\<close>, its two bit-flips.
\<close>

theorem uniform_state_sequence:
  "MottonenStatePreparation [1 / 2, 1 / 2, 1 / 2, 1 / 2] [''w0'', ''w1''] =
     ([Rotation RY (pi / 2) ''w0'',
       Rotation RY (pi / 2) ''w1'', CNOT ''w0'' ''w1'', CNOT ''w0'' ''w1'',
       CNOT ''w0'' ''w1'', CNOT ''w0'' ''w1''], None)"
proof -
  let ?wr = "[''w1'', ''w0'']"
  let ?a = "[1 / 2, 1 / 2, 1 / 2, 1 / 2 :: real]"
  have y1: "y_cascade ?a (Suc (Suc 0)) ?wr (Suc 0) q =
              (q @ [Rotation RY (pi / 2) ''w1'', CNOT ''w0'' ''w1'', CNOT ''w0'' ''w1''], None)" for q
    using uniform_amplitudes_alpha_y(2)
    by (simp add: uniform_rotation_dagger_one_control)
  have y2: "y_cascade ?a (Suc (Suc 0)) ?wr (Suc (Suc 0)) [] =
              ([Rotation RY (pi / 2) ''w0'',
                Rotation RY (pi / 2) ''w1'', CNOT ''w0'' ''w1'', CNOT ''w0'' ''w1''], None)"
    using uniform_amplitudes_alpha_y(1) y1
    by (simp add: y_cascade.simps(2) [of _ _ _ "Suc 0"] uniform_rotation_dagger_no_control
          del: y_cascade.simps(2))
  have z1: "z_cascade [0, 0, 0, 0] (Suc (Suc 0)) ?wr (Suc 0) q = (q @ [CNOT ''w0'' ''w1'', CNOT ''w0'' ''w1''], None)" for q
    using zero_phases_alpha_z(2)
    by (simp add: uniform_rotation_dagger_one_control)
  have z2: "z_cascade [0, 0, 0, 0] (Suc (Suc 0)) ?wr (Suc (Suc 0)) q = (q @ [CNOT ''w0'' ''w1'', CNOT ''w0'' ''w1''], None)" for q
    using zero_phases_alpha_z(1) z1
    by (simp add: z_cascade.simps(2) [of _ _ _ "Suc 0"] uniform_rotation_dagger_no_control del: z_cascade.simps(2))
  have norm: "np_isclose (sum_list (map (\<lambda>z. \<bar>cmod z\<bar> ^ 2) [1 / 2, 1 / 2, 1 / 2, 1 / 2])) 1 (1 / 1000)"
    by (simp add: np_isclose_def norm_divide power2_eq_square)
  have a: "map cmod [1 / 2, 1 / 2, 1 / 2, 1 / 2] = ?a" by (simp add: norm_divide)
  have om: "Arg (1 / 2) = 0" using Arg_pos_real [of "1 / 2"] by simp
  have n: "length [''w0'', ''w1''] = Suc (Suc 0)" by simp
  show ?thesis
    unfolding MottonenStatePreparation_def Let_def n
    using norm by (simp add: check_shape_def a om y2 z2 del: y_cascade.simps z_cascade.simps)
qed


text \<open>
  At \<open>k = 1\<close> the rotation angles are not all zero, and a rotation is emitted.
\<close>

theorem uniform_state_k1_counterexample:
  "get_alpha_y (map cmod [1 / 2, 1 / 2, 1 / 2, 1 / 2]) 2 1 = Inr [pi / 2, pi / 2] \<and>
   compute_theta [pi / 2, pi / 2] = [pi / 2, 0] \<and>
   compute_theta [pi / 2, pi / 2] ! 0 \<noteq> 0 \<and>
   uniform_rotation_dagger RY [pi / 2, pi / 2] [''w0''] ''w1'' [] =
     ([Rotation RY (pi / 2) ''w1'', CNOT ''w0'' ''w1'', CNOT ''w0'' ''w1''], None)"
  using uniform_amplitudes_alpha_y(2)
  by (simp add: norm_divide compute_theta_pair uniform_rotation_dagger_one_control)


section \<open>Correctness of the prepared state\<close>

lemma popcount_double: "popcount (int (2 * x + b)) = popcount (int x) + b" if "b \<le> 1" for x b :: nat
proof -
  have "(int (2 * x + b)) div 2 = int x" using that by simp
  moreover have "odd (int (2 * x + b)) \<longleftrightarrow> b = 1" using that by (cases "b = 0") auto
  moreover have "finite {n. bit (int x) n}" using count_ones_loop_popcount [of "int x" 0] by simp
  moreover have "card (Suc ` {n. bit (int x) n}) = card {n. bit (int x) n}"
    by (rule card_image) simp
  ultimately show ?thesis
    using that unfolding popcount_def
    by (subst bits_split) (auto simp: card_insert_if)
qed

lemma and_double_bit:
  fixes x y :: nat
  assumes "a \<le> 1" "b \<le> 1"
  shows "(2 * x + a) AND (2 * y + b) = 2 * (x AND y) + a * b"
proof -
  have "a = 0 \<or> a = 1" "b = 0 \<or> b = 1" using assms by auto
  then show ?thesis
    by (subst and_nat_rec) auto
qed

lemma parity_sign_double:
  assumes "a \<le> 1" "b \<le> 1"
  shows "parity_sign (2 * x + a) (2 * y + b) = parity_sign x y * (if a = 1 \<and> b = 1 then - 1 else 1)"
proof -
  have ab: "a = 0 \<or> a = 1" "b = 0 \<or> b = 1" using assms by auto
  then have "a * b \<le> 1" by auto
  then have "popcount (int (2 * (x AND y) + a * b)) = popcount (int (x AND y)) + a * b"
    by (rule popcount_double)
  then show ?thesis
    using ab unfolding parity_sign_def and_double_bit [OF assms]
    by (auto simp: power_add)
qed

lemma parity_sign_zero [simp]: "parity_sign c 0 = 1" "parity_sign 0 g = 1"
  by (simp_all add: parity_sign_def popcount_def)

lemma nat_split2: "\<exists>x' b. x = 2 * x' + b \<and> b \<le> 1" for x :: nat
  by (rule exI [of _ "x div 2"], rule exI [of _ "x mod 2"]) simp

lemma parity_sign_xor_left:
  "parity_sign a g * parity_sign b g = parity_sign (a XOR b) g"
proof (induction g arbitrary: a b rule: less_induct)
  case (less g)
  show ?case
  proof (cases "g = 0")
    case True
    then show ?thesis by simp
  next
    case False
    obtain g' c where g: "g = 2 * g' + c" "c \<le> 1" using nat_split2 by blast
    obtain a' d where a: "a = 2 * a' + d" "d \<le> 1" using nat_split2 by blast
    obtain b' e where b: "b = 2 * b' + e" "e \<le> 1" using nat_split2 by blast
    have "g' < g" using g False by auto
    from less [OF this, of a' b'] have IH: "parity_sign a' g' * parity_sign b' g' = parity_sign (a' XOR b') g'" .
    have x: "a XOR b = 2 * (a' XOR b') + (if d = e then 0 else 1)"
      unfolding a b using a(2) b(2) by (rule xor_double_bit)
    have "parity_sign (a XOR b) g = parity_sign (a' XOR b') g' * (if (if d = e then 0 else 1) = (1::nat) \<and> c = 1 then - 1 else 1)"
      unfolding x g by (rule parity_sign_double) (use g in auto)
    moreover have "parity_sign a g = parity_sign a' g' * (if d = 1 \<and> c = 1 then - 1 else 1)"
      unfolding a g using a(2) g(2) by (rule parity_sign_double)
    moreover have "parity_sign b g = parity_sign b' g' * (if e = 1 \<and> c = 1 then - 1 else 1)"
      unfolding b g using b(2) g(2) by (rule parity_sign_double)
    ultimately show ?thesis
      using IH [symmetric] a(2) b(2) by (cases "d = 0"; cases "e = 0") auto
  qed
qed

lemma parity_sign_commute: "parity_sign a g = parity_sign g a"
  by (simp add: parity_sign_def and.commute)

lemma parity_sign_xor_right:
  "parity_sign c g * parity_sign c h = parity_sign c (g XOR h)"
  using parity_sign_xor_left [of g c h] by (simp add: parity_sign_commute)

lemma parity_sign_power: "parity_sign c (2 ^ p) = (if bit c p then - 1 else 1)"
proof (induction p arbitrary: c)
  case 0
  obtain c' d where c: "c = 2 * c' + d" "d \<le> 1" using nat_split2 by blast
  have "parity_sign (2 * c' + d) (2 * 0 + 1) = parity_sign c' 0 * (if d = 1 \<and> (1::nat) = 1 then - 1 else 1)"
    using c(2) by (intro parity_sign_double) auto
  moreover have "bit c 0 \<longleftrightarrow> d = 1" using c by (cases "d = 0") (auto simp: bit_0)
  ultimately show ?case by (simp add: c)
next
  case (Suc p)
  obtain c' d where c: "c = 2 * c' + d" "d \<le> 1" using nat_split2 by blast
  have "parity_sign (2 * c' + d) (2 * 2 ^ p + 0) = parity_sign c' (2 ^ p) * (if d = 1 \<and> (0::nat) = 1 then - 1 else 1)"
    using c(2) by (intro parity_sign_double) auto
  moreover have "bit c (Suc p) \<longleftrightarrow> bit c' p" using c by (simp add: bit_Suc)
  ultimately show ?case using Suc.IH [of c'] by (simp add: c)
qed

lemma sum_pairs: "(\<Sum>i < 2 * n. f i) = (\<Sum>i < n. f (2 * i) + f (2 * i + 1))" for f :: "nat \<Rightarrow> real"
  by (induction n) simp_all

lemma parity_sign_sum:
  "x < 2 ^ r \<Longrightarrow> (\<Sum>g < 2 ^ r. parity_sign x g) = (if x = 0 then 2 ^ r else 0)"
proof (induction r arbitrary: x)
  case 0
  then show ?case by simp
next
  case (Suc r)
  obtain x' d where x: "x = 2 * x' + d" "d \<le> 1" using nat_split2 by blast
  have x': "x' < 2 ^ r" using Suc.prems x by simp
  have e: "parity_sign x (2 * g + b) = parity_sign x' g * (if d = 1 \<and> b = 1 then - 1 else 1)"
    if "b \<le> 1" for g b
    unfolding x using x(2) that by (rule parity_sign_double)
  have e0: "parity_sign x (2 * g) = parity_sign x' g" for g
    using e [of 0 g] by simp
  have e1: "parity_sign x (Suc (2 * g)) = parity_sign x' g * (if d = 1 then - 1 else 1)" for g
    using e [of 1 g] by simp
  have "(\<Sum>g < 2 ^ Suc r. parity_sign x g) = (\<Sum>g < 2 ^ r. parity_sign x (2 * g) + parity_sign x (Suc (2 * g)))"
    using sum_pairs [of "parity_sign x" "2 ^ r"] by simp
  also have "\<dots> = (\<Sum>g < 2 ^ r. parity_sign x' g * (if d = 1 then 0 else 2))"
    by (rule sum.cong) (auto simp: e0 e1)
  also have "\<dots> = (\<Sum>g < 2 ^ r. parity_sign x' g) * (if d = 1 then 0 else 2)"
    by (simp add: sum_distrib_right)
  also have "\<dots> = (if x = 0 then 2 ^ Suc r else 0)"
    using Suc.IH [OF x'] x by (cases "d = 0") auto
  finally show ?case .
qed

lemma gray_value_double:
  "b \<le> 1 \<Longrightarrow> gray_value (2 * x + b) = 2 * gray_value x + (if b = x mod 2 then 0 else 1)"
proof -
  assume b: "b \<le> 1"
  have "(2 * x + b) div 2 = x" using b by simp
  then have "gray_value (2 * x + b) = (2 * x + b) XOR (2 * (x div 2) + x mod 2)"
    by (simp add: gray_value_def)
  also have "\<dots> = 2 * (x XOR (x div 2)) + (if b = x mod 2 then 0 else 1)"
    using b by (rule xor_double_bit) simp
  finally show ?thesis by (simp add: gray_value_def)
qed

lemma gray_value_sum:
  "(\<Sum>l < 2 ^ r. f (gray_value l)) = (\<Sum>g < 2 ^ r. f g)" for f :: "nat \<Rightarrow> real"
proof (induction r arbitrary: f)
  case 0
  then show ?case by (simp add: gray_value_def)
next
  case (Suc r)
  have "(\<Sum>l < 2 ^ Suc r. f (gray_value l)) =
        (\<Sum>l < 2 ^ r. f (gray_value (2 * l + 0)) + f (gray_value (2 * l + 1)))"
    using sum_pairs [of "\<lambda>l. f (gray_value l)" "2 ^ r"] by simp
  also have "\<dots> = (\<Sum>l < 2 ^ r. f (2 * gray_value l) + f (2 * gray_value l + 1))"
  proof (rule sum.cong)
    fix l
    have "gray_value (2 * l + 0) = 2 * gray_value l + (if 0 = l mod 2 then 0 else 1)"
      by (rule gray_value_double) simp
    moreover have "gray_value (2 * l + 1) = 2 * gray_value l + (if 1 = l mod 2 then 0 else 1)"
      by (rule gray_value_double) simp
    ultimately show "f (gray_value (2 * l + 0)) + f (gray_value (2 * l + 1)) =
        f (2 * gray_value l) + f (2 * gray_value l + 1)"
      by (cases "l mod 2 = 0") auto
  qed simp
  also have "\<dots> = (\<Sum>g < 2 ^ r. f (2 * g) + f (2 * g + 1))"
    by (rule Suc.IH [of "\<lambda>g. f (2 * g) + f (2 * g + 1)"])
  also have "\<dots> = (\<Sum>g < 2 ^ Suc r. f g)"
    using sum_pairs [of f "2 ^ r"] by simp
  finally show ?case .
qed

lemma gray_value_reflect:
  "i < 2 ^ m \<Longrightarrow> gray_value (2 ^ m + i) = 2 ^ m + gray_value (2 ^ m - 1 - i)"
proof (induction m arbitrary: i)
  case 0
  then show ?case by (simp add: gray_value_def)
next
  case (Suc m)
  obtain i' b where i: "i = 2 * i' + b" "b \<le> 1" using nat_split2 by blast
  have i': "i' < 2 ^ m" using Suc.prems i by simp
  define z' where "z' = 2 ^ m - 1 - i'"
  have z: "2 ^ Suc m - 1 - i = 2 * z' + (1 - b)" using i i' by (simp add: z'_def)
  have y: "2 ^ Suc m + i = 2 * (2 ^ m + i') + b" using i by simp
  have IH: "gray_value (2 ^ m + i') = 2 ^ m + gray_value z'"
    using Suc.IH [OF i'] by (simp add: z'_def)
  have gy: "gray_value (2 ^ Suc m + i) =
          2 * gray_value (2 ^ m + i') + (if b = (2 ^ m + i') mod 2 then 0 else 1)"
    unfolding y using i(2) by (rule gray_value_double)
  have gz: "gray_value (2 ^ Suc m - 1 - i) =
          2 * gray_value z' + (if 1 - b = z' mod 2 then 0 else 1)"
    unfolding z by (rule gray_value_double) simp
  show ?case
  proof (cases m)
    case 0
    then have "i' = 0" "z' = 0" using i' by (simp_all add: z'_def)
    then show ?thesis using gy gz IH 0 i(2) by (cases "b = 0") (auto simp: gray_value_def)
  next
    case (Suc m')
    then obtain P :: nat where P: "2 ^ m = 2 * P" by simp
    have p1: "(2 ^ m + i') mod 2 = i' mod 2" unfolding P by presburger
    have "Suc (z' + i') = 2 * P" using i' P by (simp add: z'_def)
    then have "even (Suc (z' + i'))" by simp
    then have "even z' \<longleftrightarrow> odd i'" by simp
    then have p2: "z' mod 2 = 1 - i' mod 2" by (cases "even i'") (simp_all add: mod_2_eq_odd)
    have q: "(1 - b = 1 - i' mod 2) \<longleftrightarrow> (b = i' mod 2)" using i(2) by (cases "b = 0") auto
    have L: "gray_value (2 ^ Suc m + i) = 2 * (2 ^ m + gray_value z') + (if b = i' mod 2 then 0 else 1)"
      by (simp only: gy IH p1)
    have R: "gray_value (2 ^ Suc m - 1 - i) = 2 * gray_value z' + (if b = i' mod 2 then 0 else 1)"
      by (simp only: gz p2 q)
    show ?thesis unfolding L R by simp
  qed
qed

lemma gray_value_less: "l < 2 ^ m \<Longrightarrow> gray_value l < 2 ^ m"
proof (induction m arbitrary: l)
  case 0
  then show ?case by (simp add: gray_value_def)
next
  case (Suc m)
  obtain l' b where l: "l = 2 * l' + b" "b \<le> 1" using nat_split2 by blast
  have "l' < 2 ^ m" using Suc.prems l by simp
  from Suc.IH [OF this] gray_value_double [OF l(2), of l'] show ?case
    unfolding l by (auto split: if_splits)
qed

lemma binary_value_Cons:
  "binary_value (c # s) = (if c = CHR ''1'' then 2 ^ length s else 0) + binary_value s"
proof (induction s rule: rev_induct)
  case Nil
  then show ?case by (simp add: binary_value_def)
next
  case (snoc d s)
  have "binary_value (c # s @ [d]) = 2 * binary_value (c # s) + (if d = CHR ''1'' then 1 else 0)"
    using binary_value_snoc [of "c # s" d] by simp
  then show ?case using snoc by (simp add: binary_value_snoc)
qed

lemma gray_values_inv_step:
  assumes "gray_values_inv m g"
  shows "gray_values_inv (Suc m) (gray_step g)"
proof -
  have len: "length g = 2 ^ m" and el: "\<And>l. l < 2 ^ m \<Longrightarrow> length (g ! l) = m \<and> binary_value (g ! l) = gray_value l"
    using assms by (auto simp: gray_values_inv_def)
  have "length (gray_step g ! l) = Suc m \<and> binary_value (gray_step g ! l) = gray_value l"
    if "l < 2 ^ Suc m" for l
  proof (cases "l < 2 ^ m")
    case True
    then show ?thesis using el [OF True] by (simp add: gray_step_nth_lo len binary_value_Cons)
  next
    case False
    define i where "i = l - 2 ^ m"
    have i: "i < 2 ^ m" "l = length g + i" using False that by (auto simp: i_def len)
    have r: "length g - Suc i < 2 ^ m" "length g - Suc i = 2 ^ m - 1 - i" using i by (auto simp: len)
    have "gray_step g ! l = CHR ''1'' # g ! (length g - Suc i)"
      unfolding i(2) using i(1) by (intro gray_step_nth_hi) (simp add: len)
    then show ?thesis
      using el [OF r(1)] gray_value_reflect [OF i(1)] i(2) r(2)
      by (simp add: binary_value_Cons len)
  qed
  then show ?thesis by (simp add: gray_values_inv_def gray_step_def len)
qed

lemma gray_values_inv_recurse:
  "gray_values_inv m g \<Longrightarrow> gray_values_inv (m + n) (gray_code_recurse g (int n))"
proof (induction n arbitrary: m g)
  case 0
  then show ?case by simp
next
  case (Suc n)
  have "gray_code_recurse g (int (Suc n)) = gray_code_recurse (gray_step g) (int n)"
    by (subst gray_code_recurse.simps) (simp add: loops_gray_step Let_def)
  moreover have "gray_values_inv (Suc m + n) (gray_code_recurse (gray_step g) (int n))"
    using Suc.IH [OF gray_values_inv_step [OF Suc.prems]] by simp
  ultimately show ?case by simp
qed

lemma gray_code_values:
  assumes "1 \<le> r" "l < 2 ^ r"
  shows "binary_value (gray_code (int r) ! l) = gray_value l"
proof -
  have "gray_values_inv 1 [''0'', ''1'']"
    by (simp add: gray_values_inv_def binary_value_def gray_value_def less_Suc_eq numeral_2_eq_2)
  from gray_values_inv_recurse [OF this, of "r - 1"] assms show ?thesis
    by (simp add: gray_code_def gray_values_inv_def of_nat_diff)
qed

lemma xor_nat_less: "a < 2 ^ n \<Longrightarrow> b < 2 ^ n \<Longrightarrow> a XOR b < 2 ^ n" for a b :: nat
proof -
  assume "a < 2 ^ n" "b < 2 ^ n"
  then have "int a XOR int b < 2 ^ n" by (intro XOR_upper) simp_all
  then have "int (a XOR b) < int (2 ^ n)" by (simp add: of_nat_xor_eq)
  then show ?thesis by (simp only: of_nat_less_iff)
qed

lemma xor_nat_eq_0: "a XOR b = 0 \<longleftrightarrow> a = b" for a b :: nat
proof
  assume "a XOR b = 0"
  then have "a XOR (a XOR b) = a" by simp
  then show "a = b" by (simp flip: xor.assoc)
qed simp

lemma sign_matrix_parity: "sign_matrix i j = parity_sign j (gray_value i)"
proof -
  have "int j AND (drop_bit 1 (int i) XOR int i) = int (j AND gray_value i)"
    by (simp add: gray_value_def of_nat_and_eq of_nat_xor_eq drop_bit_eq_div xor.commute zdiv_int)
  then show ?thesis
    using matrix_M_entry_popcount [of "int j" "int i"]
    by (simp add: sign_matrix_def parity_sign_def)
qed

lemma theta_inversion:
  assumes len: "length alpha = 2 ^ r" and c: "c < 2 ^ r"
  shows "(\<Sum>l < 2 ^ r. parity_sign c (gray_value l) * compute_theta alpha ! l) = alpha ! c"
proof -
  let ?L = "(2::nat) ^ r"
  have ne: "alpha \<noteq> []" using len by auto
  have th: "compute_theta alpha ! l = (\<Sum>j < ?L. parity_sign j (gray_value l) * alpha ! j) / real ?L"
    if "l < ?L" for l
    using that len by (simp add: compute_theta_closed [OF ne] sign_matrix_parity)
  have "(\<Sum>l < ?L. parity_sign c (gray_value l) * compute_theta alpha ! l) =
        (\<Sum>l < ?L. parity_sign c (gray_value l) *
            ((\<Sum>j < ?L. parity_sign j (gray_value l) * alpha ! j) / real ?L))"
    by (rule sum.cong) (simp_all add: th)
  also have "\<dots> = (\<Sum>l < ?L. \<Sum>j < ?L. parity_sign (c XOR j) (gray_value l) * alpha ! j / real ?L)"
    by (simp add: sum_distrib_left sum_divide_distrib mult.assoc [symmetric] parity_sign_xor_left)
  also have "\<dots> = (\<Sum>j < ?L. \<Sum>l < ?L. parity_sign (c XOR j) (gray_value l) * alpha ! j / real ?L)"
    by (rule sum.swap)
  also have "\<dots> = (\<Sum>j < ?L. (\<Sum>l < ?L. parity_sign (c XOR j) (gray_value l)) * alpha ! j / real ?L)"
    by (simp add: sum_distrib_right sum_divide_distrib)
  also have "\<dots> = (\<Sum>j < ?L. (\<Sum>g < ?L. parity_sign (c XOR j) g) * alpha ! j / real ?L)"
    by (simp only: gray_value_sum [of "parity_sign (c XOR _)"])
  also have "\<dots> = (\<Sum>j < ?L. (if c XOR j = 0 then real ?L else 0) * alpha ! j / real ?L)"
  proof (rule sum.cong)
    fix j assume "j \<in> {..<?L}"
    then have "c XOR j < ?L" using c by (simp add: xor_nat_less) 
    then show "(\<Sum>g < ?L. parity_sign (c XOR j) g) * alpha ! j / real ?L =
               (if c XOR j = 0 then real ?L else 0) * alpha ! j / real ?L"
      by (simp add: parity_sign_sum)
  qed simp
  also have "\<dots> = (\<Sum>j < ?L. if j = c then alpha ! j else 0)"
    by (rule sum.cong) (auto simp: xor_nat_eq_0)
  also have "\<dots> = alpha ! c" using c by simp
  finally show ?thesis .
qed

lemma set_unset_arith:
  fixes i :: nat
  shows "bit i t \<Longrightarrow> unset_bit t i = i - 2 ^ t" "bit i t \<Longrightarrow> set_bit t i = i"
    "\<not> bit i t \<Longrightarrow> unset_bit t i = i" "\<not> bit i t \<Longrightarrow> set_bit t i = i + 2 ^ t"
proof -
  have s: "set_bit t (unset_bit t i) = set_bit t i"
    by (rule bit_eqI) (auto simp: bit_unset_bit_iff bit_set_bit_iff)
  have "set_bit t (unset_bit t i) = unset_bit t i + 2 ^ t"
    by (simp add: set_bit_eq bit_unset_bit_iff)
  with s have e: "set_bit t i = unset_bit t i + 2 ^ t" by simp
  show "bit i t \<Longrightarrow> set_bit t i = i" "\<not> bit i t \<Longrightarrow> set_bit t i = i + 2 ^ t"
    by (simp_all add: set_bit_eq)
  then show "bit i t \<Longrightarrow> unset_bit t i = i - 2 ^ t" using e by simp
  show "\<not> bit i t \<Longrightarrow> unset_bit t i = i"
    by (rule bit_eqI) (auto simp: bit_unset_bit_iff)
qed

lemma apply_single_local: "apply_single t M = apply_local t (\<lambda>_. M)"
  by (rule ext, rule ext) (auto simp: apply_single_def apply_local_def set_unset_arith split: prod.splits)

lemma apply_cnot_local:
  "c \<noteq> t \<Longrightarrow> apply_cnot c t = apply_local t (\<lambda>i0. if bit i0 c then flip_matrix else unit_matrix)"
  by (rule ext, rule ext)
     (auto simp: apply_cnot_def apply_local_def set_unset_arith flip_matrix_def unit_matrix_def
        bit_unset_bit_iff split: prod.splits)

lemma apply_local_compose:
  "apply_local t M2 (apply_local t M1 psi) = apply_local t (\<lambda>i0. mmul (M2 i0) (M1 i0)) psi"
proof (rule ext)
  fix i :: nat
  let ?i0 = "unset_bit t i" and ?i1 = "set_bit t i"
  have b: "\<not> bit ?i0 t" "bit ?i1 t" by (simp_all add: bit_unset_bit_iff bit_set_bit_iff)
  have u: "unset_bit t ?i0 = ?i0" "unset_bit t ?i1 = ?i0" "set_bit t ?i0 = ?i1" "set_bit t ?i1 = ?i1"
    by (rule bit_eqI; auto simp: bit_unset_bit_iff bit_set_bit_iff)+
  obtain a1 b1 c1 d1 where m1: "M1 ?i0 = (a1, b1, c1, d1)" by (cases "M1 ?i0")
  obtain a2 b2 c2 d2 where m2: "M2 ?i0 = (a2, b2, c2, d2)" by (cases "M2 ?i0")
  have p0: "apply_local t M1 psi ?i0 = a1 * psi ?i0 + b1 * psi ?i1"
    using b(1) by (simp add: apply_local_def u m1)
  have p1: "apply_local t M1 psi ?i1 = c1 * psi ?i0 + d1 * psi ?i1"
    using b(2) by (simp add: apply_local_def u m1)
  show "apply_local t M2 (apply_local t M1 psi) i = apply_local t (\<lambda>i0. mmul (M2 i0) (M1 i0)) psi i"
    unfolding apply_local_def [of t M2] apply_local_def [of t "\<lambda>i0. mmul (M2 i0) (M1 i0)"]
    by (simp add: m1 m2 p0 p1 mmul_def algebra_simps)
qed

lemma apply_local_unit: "apply_local t (\<lambda>_. unit_matrix) psi = psi"
proof (rule ext)
  fix i :: nat
  show "apply_local t (\<lambda>_. unit_matrix) psi i = psi i"
    by (cases "bit i t") (simp_all add: apply_local_def unit_matrix_def set_unset_arith)
qed

lemma rotation_matrix_zero: "rotation_matrix g 0 = unit_matrix"
  by (cases g) (simp_all add: unit_matrix_def)

lemma rotation_matrix_add:
  "mmul (rotation_matrix g x) (rotation_matrix g y) = rotation_matrix g (x + y)"
proof (cases g)
  case RY
  show ?thesis using RY
    by (simp add: mmul_def add_divide_distrib cos_add sin_add algebra_simps)
next
  case RZ
  have "- (x + y) / 2 = - x / 2 + - y / 2" "(x + y) / 2 = x / 2 + y / 2"
    by (simp_all add: field_simps)
  then have "cis (- (x + y) / 2) = cis (- x / 2) * cis (- y / 2)" "cis ((x + y) / 2) = cis (x / 2) * cis (y / 2)"
    by (simp_all only: cis_mult)
  then show ?thesis using RZ by (simp add: mmul_def)
qed

lemma rotation_flip:
  "mmul (rotation_matrix g x) flip_matrix = mmul flip_matrix (rotation_matrix g (- x))"
  by (cases g) (simp_all add: mmul_def flip_matrix_def)

lemma mmul_assoc: "mmul (mmul A B) C = mmul A (mmul B C)"
  by (cases A; cases B; cases C) (simp add: mmul_def algebra_simps)

lemma flip_flip: "mmul flip_matrix (mmul flip_matrix M) = M"
  by (cases M) (simp add: mmul_def flip_matrix_def)

lemma mmul_unit: "mmul unit_matrix M = M"
  by (cases M) (simp add: mmul_def unit_matrix_def)

lemma signed_rotation_step:
  assumes "s = 1 \<or> s = - 1"
  shows "mmul (if cb then flip_matrix else unit_matrix)
           (mmul (rotation_matrix g theta) (signed_rotation s g x)) =
         signed_rotation (s * (if cb then - 1 else 1)) g (x + s * theta)"
proof -
  have "mmul (rotation_matrix g theta) (mmul flip_matrix (rotation_matrix g x)) =
        mmul (mmul flip_matrix (rotation_matrix g (- theta))) (rotation_matrix g x)"
    by (simp add: rotation_flip flip: mmul_assoc)
  then have 2: "mmul (rotation_matrix g theta) (mmul flip_matrix (rotation_matrix g x)) =
        mmul flip_matrix (rotation_matrix g (x - theta))"
    by (simp add: mmul_assoc rotation_matrix_add)
  show ?thesis
    using assms by (auto simp: 2 signed_rotation_def flip_flip mmul_unit rotation_matrix_add add.commute)
qed

lemma run_operations_append:
  "run_operations wires (xs @ ys) psi = run_operations wires ys (run_operations wires xs psi)"
  by (simp add: run_operations_def)

lemma run_operations_Nil [simp]: "run_operations wires [] psi = psi"
  by (simp add: run_operations_def)

lemma run_operations_single [simp]: "run_operations wires [x] psi = apply_operation wires x psi"
  by (simp add: run_operations_def)

lemma mmul_unit_right: "mmul M unit_matrix = M"
  by (cases M) (simp add: mmul_def unit_matrix_def)

lemma rotation_step_semantics:
  assumes "wire_bit wires (cw ! ci) \<noteq> wire_bit wires t"
  shows "run_operations wires (rotation_step g theta cw t i ci) psi =
         apply_local (wire_bit wires t)
           (\<lambda>i0. mmul (if bit i0 (wire_bit wires (cw ! ci)) then flip_matrix else unit_matrix)
                       (rotation_matrix g (theta ! i))) psi"
proof (cases "theta ! i = 0")
  case True
  then show ?thesis
    using assms
    by (simp add: rotation_step_def apply_cnot_local rotation_matrix_zero mmul_unit_right)
next
  case False
  then show ?thesis
    using assms
    by (simp add: rotation_step_def run_operations_def apply_cnot_local apply_single_local
        apply_local_compose)
qed

lemma sigma_sign: "sigma cb m i0 = 1 \<or> sigma cb m i0 = - 1"
  by (induction m) auto

lemma rotation_sequence_semantics:
  assumes "\<forall>i < n. wire_bit wires (cw ! (idxs ! i)) \<noteq> wire_bit wires t"
  shows "m \<le> n \<Longrightarrow>
         run_operations wires
           (concat (map (\<lambda>i. rotation_step g theta cw t i (idxs ! i)) [0..<m])) psi =
         apply_local (wire_bit wires t)
           (\<lambda>i0. signed_rotation (sigma (\<lambda>i. wire_bit wires (cw ! (idxs ! i))) m i0) g
                   (acc_angle (\<lambda>i. wire_bit wires (cw ! (idxs ! i))) theta m i0)) psi"
proof (induction m)
  case 0
  then show ?case
    by (simp add: signed_rotation_def rotation_matrix_zero apply_local_unit)
next
  case (Suc m)
  let ?cb = "\<lambda>i. wire_bit wires (cw ! (idxs ! i))"
  have ne: "?cb m \<noteq> wire_bit wires t" using assms Suc.prems by simp
  have IH: "run_operations wires
           (concat (map (\<lambda>i. rotation_step g theta cw t i (idxs ! i)) [0..<m])) psi =
         apply_local (wire_bit wires t)
           (\<lambda>i0. signed_rotation (sigma ?cb m i0) g (acc_angle ?cb theta m i0)) psi"
    using Suc by simp
  have step: "mmul (mmul (if bit i0 (?cb m) then flip_matrix else unit_matrix)
                       (rotation_matrix g (theta ! m)))
                 (signed_rotation (sigma ?cb m i0) g (acc_angle ?cb theta m i0)) =
              signed_rotation (sigma ?cb (Suc m) i0) g (acc_angle ?cb theta (Suc m) i0)" for i0
    using signed_rotation_step [OF sigma_sign [of ?cb m i0], of "bit i0 (?cb m)" g "theta ! m"
        "acc_angle ?cb theta m i0"]
    by (simp add: mmul_assoc)
  show ?case
    by (simp add: run_operations_append IH rotation_step_semantics [OF ne] apply_local_compose step
        del: sigma.simps acc_angle.simps)
qed

lemma acc_angle_sum:
  "acc_angle cb theta m i0 = (\<Sum>l < m. sigma cb l i0 * theta ! l)"
  by (induction m) simp_all

lemma sigma_gray:
  assumes bits: "\<forall>l < L. bit i0 (cb l) = bit c (idxs ! l)"
      and gray: "\<forall>l < L. gray_value l XOR gray_value ((l + 1) mod L) = 2 ^ (idxs ! l)"
  shows "m \<le> L \<Longrightarrow> sigma cb m i0 = parity_sign c (gray_value (m mod L))"
proof (induction m)
  case 0
  then show ?case by (simp add: gray_value_def)
next
  case (Suc m)
  then have m: "m < L" by simp
  have "gray_value ((m + 1) mod L) = gray_value m XOR 2 ^ (idxs ! m)"
  proof -
    have "gray_value m XOR (gray_value m XOR gray_value ((m + 1) mod L)) = gray_value m XOR 2 ^ (idxs ! m)"
      using gray m by simp
    then show ?thesis by (simp flip: xor.assoc)
  qed
  then have "parity_sign c (gray_value (Suc m mod L)) =
             parity_sign c (gray_value m) * parity_sign c (2 ^ (idxs ! m))"
    by (simp add: parity_sign_xor_right)
  also have "\<dots> = sigma cb m i0 * (if bit i0 (cb m) then - 1 else 1)"
    using Suc m bits by (simp add: parity_sign_power)
  finally show ?case by simp
qed

lemma gray_code_int_base2:
  assumes "1 \<le> r" "l < 2 ^ r"
  shows "int_base2 (gray_code (int r) ! l) = Some (gray_value l)"
proof -
  have "gray_inv r (gray_code (int r))"
    using gray_code_inv [of "int r"] assms(1) by simp
  then have "gray_code (int r) ! l \<in> set (gray_code (int r))"
    "\<forall>s \<in> set (gray_code (int r)). length s = r \<and> binary_string s"
    using assms(2) by (simp_all add: gray_inv_def)
  then have "length (gray_code (int r) ! l) = r" "binary_string (gray_code (int r) ! l)"
    by blast+
  moreover from this(1) assms(1) have "gray_code (int r) ! l \<noteq> []" by auto
  ultimately show ?thesis
    using gray_code_values [OF assms] by (simp add: int_base2_Some)
qed

lemma config_bit:
  "p < r \<Longrightarrow> bit ((i0 div 2 ^ k) mod 2 ^ r) p = bit i0 (k + p)" for i0 :: nat
proof -
  have "(i0 div 2 ^ k) mod 2 ^ r = take_bit r (drop_bit k i0)"
    by (simp add: take_bit_eq_mod drop_bit_eq_div)
  then show "p < r \<Longrightarrow> bit ((i0 div 2 ^ k) mod 2 ^ r) p = bit i0 (k + p)"
    by (simp add: bit_take_bit_iff bit_drop_bit_eq)
qed

lemma uniform_rotation_dagger_semantics:
  fixes cw :: "'w list"
  assumes len: "length alpha = 2 ^ length cw"
      and cpos: "\<forall>p < length cw. wire_bit wires (cw ! p) = k + p"
      and tpos: "wire_bit wires t < k"
  shows "\<exists>ops. uniform_rotation_dagger g alpha cw t q = (q @ ops, None) \<and>
           run_operations wires ops psi =
             apply_local (wire_bit wires t)
               (\<lambda>i0. rotation_matrix g (alpha ! ((i0 div 2 ^ k) mod 2 ^ length cw))) psi"
proof (cases "cw = []")
  case True
  with len obtain x where x: "alpha = [x]" by (cases alpha) auto
  show ?thesis
  proof (cases "x = 0")
    case True
    then have "uniform_rotation_dagger g alpha cw t q = (q @ [], None)"
      using \<open>cw = []\<close> x by (simp add: uniform_rotation_dagger_no_control)
    moreover have "run_operations wires [] psi =
             apply_local (wire_bit wires t)
               (\<lambda>i0. rotation_matrix g (alpha ! ((i0 div 2 ^ k) mod 2 ^ length cw))) psi"
      using True \<open>cw = []\<close> x by (simp add: rotation_matrix_zero apply_local_unit)
    ultimately show ?thesis by blast
  next
    case False
    then have "uniform_rotation_dagger g alpha cw t q = (q @ [Rotation g x t], None)"
      using \<open>cw = []\<close> x by (simp add: uniform_rotation_dagger_no_control)
    moreover have "run_operations wires [Rotation g x t] psi =
             apply_local (wire_bit wires t)
               (\<lambda>i0. rotation_matrix g (alpha ! ((i0 div 2 ^ k) mod 2 ^ length cw))) psi"
      using \<open>cw = []\<close> x by (simp add: apply_single_local)
    ultimately show ?thesis by blast
  qed
next
  case False
  define r where "r = length cw"
  define L :: nat where "L = 2 ^ r"
  have r1: "1 \<le> r" using False by (cases cw) (simp_all add: r_def)
  from uniform_rotation_dagger_controlled [OF False len, of g t q]
  obtain idxs where
    ix: "\<forall>i < L. idxs ! i < r \<and>
            the (int_base2 (gray_code (int r) ! i)) XOR
            the (int_base2 (gray_code (int r) ! ((i + 1) mod L))) = 2 ^ (idxs ! i)" and
    u: "uniform_rotation_dagger g alpha cw t q =
             (q @ concat (map (\<lambda>i. rotation_step g (compute_theta alpha) cw t i (idxs ! i))
                              [0..<L]), None)"
    unfolding r_def L_def by blast
  let ?cb = "\<lambda>i. wire_bit wires (cw ! (idxs ! i))"
  let ?c = "\<lambda>i0::nat. (i0 div 2 ^ k) mod L"
  have L0: "0 < L" by (simp add: L_def)
  have gray: "\<forall>l < L. gray_value l XOR gray_value ((l + 1) mod L) = 2 ^ (idxs ! l)"
  proof (intro allI impI)
    fix l assume l: "l < L"
    then have "(l + 1) mod L < L" using L0 by simp
    then show "gray_value l XOR gray_value ((l + 1) mod L) = 2 ^ (idxs ! l)"
      using ix [rule_format, OF l] l gray_code_int_base2 [OF r1, of l]
        gray_code_int_base2 [OF r1, of "(l + 1) mod L"]
      by (simp add: L_def)
  qed
  have cb: "?cb l = k + idxs ! l" if "l < L" for l
    using cpos ix that by (simp add: r_def)
  have ne: "\<forall>i < L. ?cb i \<noteq> wire_bit wires t"
    using cb tpos by simp
  have bits: "\<forall>l < L. bit i0 (?cb l) = bit (?c i0) (idxs ! l)" for i0
    using ix cb by (simp add: config_bit L_def)
  have sig: "sigma ?cb m i0 = parity_sign (?c i0) (gray_value (m mod L))" if "m \<le> L" for m i0
    using sigma_gray [OF bits gray that] .
  have sL: "sigma ?cb L i0 = 1" for i0
    using sig [of L i0] by (simp add: gray_value_def)
  have cL: "?c i0 < 2 ^ r" for i0 using L0 by (simp add: L_def)
  have aL: "acc_angle ?cb (compute_theta alpha) L i0 = alpha ! (?c i0)" for i0
  proof -
    have "acc_angle ?cb (compute_theta alpha) L i0 =
            (\<Sum>l < L. sigma ?cb l i0 * compute_theta alpha ! l)"
      by (rule acc_angle_sum)
    also have "\<dots> = (\<Sum>l < L. parity_sign (?c i0) (gray_value l) * compute_theta alpha ! l)"
      by (rule sum.cong) (simp_all add: sig)
    also have "\<dots> = alpha ! (?c i0)"
      using theta_inversion [of alpha r "?c i0"] len cL by (simp add: r_def L_def)
    finally show ?thesis .
  qed
  have "run_operations wires
           (concat (map (\<lambda>i. rotation_step g (compute_theta alpha) cw t i (idxs ! i)) [0..<L])) psi =
         apply_local (wire_bit wires t)
           (\<lambda>i0. signed_rotation (sigma ?cb L i0) g
                   (acc_angle ?cb (compute_theta alpha) L i0)) psi"
    by (rule rotation_sequence_semantics [OF ne]) simp
  then have "run_operations wires
           (concat (map (\<lambda>i. rotation_step g (compute_theta alpha) cw t i (idxs ! i)) [0..<L])) psi =
         apply_local (wire_bit wires t)
           (\<lambda>i0. rotation_matrix g (alpha ! ((i0 div 2 ^ k) mod L))) psi"
    by (simp add: sL aL signed_rotation_def)
  with u show ?thesis unfolding L_def r_def by blast
qed

lemma wire_index_nth: "distinct xs \<Longrightarrow> k < length xs \<Longrightarrow> wire_index xs (xs ! k) = k"
proof (induction xs arbitrary: k)
  case Nil
  then show ?case by simp
next
  case (Cons x xs)
  then show ?case by (cases k) auto
qed

lemma bit_decompose:
  fixes i :: nat
  shows "i = (i div 2 ^ Suc t) * 2 ^ Suc t + of_bool (bit i t) * 2 ^ t + i mod 2 ^ t"
proof -
  have "i = (i div 2 ^ t) * 2 ^ t + i mod 2 ^ t" by (rule div_mult_mod_eq [symmetric])
  moreover have "i div 2 ^ t = 2 * (i div 2 ^ t div 2) + (i div 2 ^ t) mod 2"
    by (rule mult_div_mod_eq [symmetric])
  moreover have "i div 2 ^ t div 2 = i div 2 ^ Suc t"
    by (simp only: power_Suc2 div_mult2_eq)
  moreover have "(i div 2 ^ t) mod 2 = of_bool (bit i t)" by (simp add: bit_iff_odd mod_2_eq_odd)
  ultimately have "i = (2 * (i div 2 ^ Suc t) + of_bool (bit i t)) * 2 ^ t + i mod 2 ^ t"
    by metis
  then show ?thesis by (simp add: algebra_simps)
qed

lemma unset_bit_decompose:
  fixes i :: nat
  shows "unset_bit t i = (i div 2 ^ Suc t) * 2 ^ Suc t + i mod 2 ^ t"
    and "set_bit t i = (i div 2 ^ Suc t) * 2 ^ Suc t + 2 ^ t + i mod 2 ^ t"
  using bit_decompose [of i t]
  by (cases "bit i t"; simp add: set_unset_arith)+

lemma block_div_mod:
  fixes q lo :: nat
  assumes "lo < 2 ^ n"
  shows "(q * 2 ^ n + lo) div 2 ^ n = q" "(q * 2 ^ n + lo) mod 2 ^ n = lo"
  using assms by simp_all

lemma set_unset_less:
  fixes i :: nat
  assumes "i < 2 ^ N" "t < N"
  shows "unset_bit t i < 2 ^ N" "set_bit t i < 2 ^ N"
proof -
  have "unset_bit t i \<le> i" by (cases "bit i t") (simp_all add: set_unset_arith)
  then show "unset_bit t i < 2 ^ N" using assms by simp
  have ti: "take_bit N i = i" using assms(1) by (rule take_bit_nat_eq_self)
  have bi: "n < N" if "bit i n" for n
    using that bit_take_bit_iff [of N i n] ti by simp
  have "take_bit N (set_bit t i) = set_bit t i"
    by (rule bit_eqI) (use assms bi in \<open>auto simp: bit_take_bit_iff bit_set_bit_iff\<close>)
  then show "set_bit t i < 2 ^ N"
    by (metis take_bit_nat_less_exp)
qed

lemma sum_split_half:
  "(\<Sum>l < 2 ^ Suc t. f l) = (\<Sum>l < 2 ^ t. f l) + (\<Sum>l < 2 ^ t. f (2 ^ t + l))" for f :: "nat \<Rightarrow> real"
proof -
  have "(\<Sum>l < m + n. f l) = (\<Sum>l < m. f l) + (\<Sum>l < n. f (m + l))" for m n
    by (induction n) simp_all
  from this [of "2 ^ t" "2 ^ t"] show ?thesis by (simp add: mult_2)
qed

lemma rotation_angle_split:
  assumes "0 \<le> lo" "0 \<le> num" "den = lo + num"
  defines "alpha \<equiv> 2 * arcsin (sqrt (if den \<noteq> 0 then num / den else 0))"
  shows "sin (alpha / 2) * sqrt den = sqrt num" "cos (alpha / 2) * sqrt den = sqrt lo"
proof -
  show "sin (alpha / 2) * sqrt den = sqrt num"
  proof (cases "den = 0")
    case True
    then show ?thesis using assms by simp
  next
    case False
    then have d: "0 < den" using assms by simp
    have "0 \<le> num / den" "num / den \<le> 1" using assms d by simp_all
    then have "sin (arcsin (sqrt (num / den))) = sqrt (num / den)"
      by (intro sin_arcsin) (simp_all add: order_trans [of "- 1" 0])
    then show ?thesis using False d by (simp add: alpha_def real_sqrt_divide)
  qed
  show "cos (alpha / 2) * sqrt den = sqrt lo"
  proof (cases "den = 0")
    case True
    then show ?thesis using assms by simp
  next
    case False
    then have d: "0 < den" using assms by simp
    have r: "0 \<le> num / den" "num / den \<le> 1" using assms d by simp_all
    then have "cos (arcsin (sqrt (num / den))) = sqrt (1 - (sqrt (num / den))\<^sup>2)"
      by (intro cos_arcsin) (simp_all add: order_trans [of "- 1" 0])
    also have "\<dots> = sqrt (lo / den)"
      using r d assms by (simp add: field_simps)
    finally show ?thesis using False d by (simp add: alpha_def real_sqrt_divide)
  qed
qed

lemma alpha_y_nth:
  fixes N k :: nat
  assumes k: "1 \<le> k" "k \<le> N" and len: "length a = 2 ^ N" and j: "j < 2 ^ (N - k)"
  shows "\<exists>v. get_alpha_y a (int N) (int k) = Inr v \<and> length v = 2 ^ (N - k) \<and>
           v ! j = 2 * arcsin (sqrt
                     (if (\<Sum>l < 2 ^ k. (a ! (j * 2 ^ k + l))\<^sup>2) \<noteq> 0
                      then (\<Sum>l < 2 ^ (k - 1). (a ! (j * 2 ^ k + 2 ^ (k - 1) + l))\<^sup>2) /
                           (\<Sum>l < 2 ^ k. (a ! (j * 2 ^ k + l))\<^sup>2)
                      else 0))"
proof -
  have ik: "1 \<le> int k" "int k \<le> int N" "length a = 2 ^ nat (int N)" using k len by simp_all
  have nk: "nat (int N - int k) = N - k" "nat (int k - 1) = k - 1" "nat (int k) = k" by simp_all
  have k2: "(2::nat) ^ k = 2 * 2 ^ (k - 1)" using k by (cases k) simp_all
  have num: "alpha_y_numerator a (2 ^ (k - 1)) j =
               (\<Sum>l < 2 ^ (k - 1). (a ! (j * 2 ^ k + 2 ^ (k - 1) + l))\<^sup>2)"
    unfolding alpha_y_numerator_def
    by (simp only: interv_sum_list_conv_sum_set_nat set_upt)
       (simp add: atLeast0LessThan k2 algebra_simps)
  have den: "alpha_y_denominator a (2 ^ k) j = (\<Sum>l < 2 ^ k. (a ! (j * 2 ^ k + l))\<^sup>2)"
    unfolding alpha_y_denominator_def
    by (simp only: interv_sum_list_conv_sum_set_nat set_upt) (simp add: atLeast0LessThan)
  let ?f = "\<lambda>j. 2 * arcsin (sqrt
                         (if alpha_y_denominator a (2 ^ k) j \<noteq> 0
                          then alpha_y_numerator a (2 ^ (k - 1)) j /
                               alpha_y_denominator a (2 ^ k) j
                          else 0))"
  have F: "get_alpha_y a (int N) (int k) = Inr (map ?f [0..<2 ^ (N - k)])"
    using get_alpha_y_closed [OF ik] unfolding nk .
  have "map ?f [0..<2 ^ (N - k)] ! j = ?f j" using j by simp
  then have "map ?f [0..<2 ^ (N - k)] ! j = 2 * arcsin (sqrt
                     (if (\<Sum>l < 2 ^ k. (a ! (j * 2 ^ k + l))\<^sup>2) \<noteq> 0
                      then (\<Sum>l < 2 ^ (k - 1). (a ! (j * 2 ^ k + 2 ^ (k - 1) + l))\<^sup>2) /
                           (\<Sum>l < 2 ^ k. (a ! (j * 2 ^ k + l))\<^sup>2)
                      else 0))"
    by (simp only: num den)
  moreover have "length (map ?f [0..<2 ^ (N - k)]) = 2 ^ (N - k)" by simp
  ultimately show ?thesis using F by blast
qed

lemma alpha_z_nth:
  fixes N k :: nat
  assumes k: "1 \<le> k" "k \<le> N" and len: "length omega = 2 ^ N" and j: "j < 2 ^ (N - k)"
  shows "\<exists>v. get_alpha_z omega (int N) (int k) = Inr v \<and> length v = 2 ^ (N - k) \<and>
           v ! j = block_mean omega (k - 1) (2 * j + 1) - block_mean omega (k - 1) (2 * j)"
proof -
  have ik: "1 \<le> int k" "int k \<le> int N" "length omega = 2 ^ nat (int N)" using k len by simp_all
  have nk: "nat (int N - int k) = N - k" "nat (int k - 1) = k - 1" by simp_all
  let ?K = "(2::nat) ^ (k - 1)"
  have "sum_list (map (alpha_z_formula omega ?K (Suc j)) [1..<?K + 1]) =
        (\<Sum>l \<in> {1..<?K + 1}. alpha_z_formula omega ?K (Suc j) l)"
    by (simp only: interv_sum_list_conv_sum_set_nat set_upt)
  also have "\<dots> = (\<Sum>l < ?K. alpha_z_formula omega ?K (Suc j) (Suc l))"
    using sum.shift_bounds_nat_ivl [of "alpha_z_formula omega ?K (Suc j)" 0 1 ?K]
    by (simp add: atLeast0LessThan)
  also have "\<dots> = (\<Sum>l < ?K. (omega ! ((2 * j + 1) * ?K + l) - omega ! (2 * j * ?K + l)) / real ?K)"
    by (rule sum.cong) (simp_all add: alpha_z_formula_def)
  also have "\<dots> = block_mean omega (k - 1) (2 * j + 1) - block_mean omega (k - 1) (2 * j)"
    by (simp add: block_mean_def sum_subtractf sum_divide_distrib diff_divide_distrib)
  finally have e: "sum_list (map (alpha_z_formula omega ?K (Suc j)) [1..<?K + 1]) =
      block_mean omega (k - 1) (2 * j + 1) - block_mean omega (k - 1) (2 * j)" .
  let ?g = "\<lambda>j. sum_list (map (alpha_z_formula omega ?K j) [1..<?K + 1])"
  have F: "get_alpha_z omega (int N) (int k) = Inr (map ?g [1..<2 ^ (N - k) + 1])"
    using get_alpha_z_closed [OF ik] unfolding nk .
  have "1 + j < 2 ^ (N - k) + 1" using j by simp
  then have "[1..<2 ^ (N - k) + 1] ! j = 1 + j" by (rule nth_upt)
  then have n: "[1..<2 ^ (N - k) + 1] ! j = Suc j" by simp
  have l: "length [1..<2 ^ (N - k) + 1] = 2 ^ (N - k)" by (simp only: length_upt add_diff_cancel_right')
  then have "j < length [1..<2 ^ (N - k) + 1]" using j by (simp only: l)
  then have "map ?g [1..<2 ^ (N - k) + 1] ! j = ?g ([1..<2 ^ (N - k) + 1] ! j)" by (rule nth_map)
  then have "map ?g [1..<2 ^ (N - k) + 1] ! j =
      block_mean omega (k - 1) (2 * j + 1) - block_mean omega (k - 1) (2 * j)"
    by (simp only: n e)
  moreover have "length (map ?g [1..<2 ^ (N - k) + 1]) = 2 ^ (N - k)" by (simp only: length_map l)
  ultimately show ?thesis using F by blast
qed

lemma div_block_less:
  fixes i :: nat
  assumes "i < 2 ^ N" "k \<le> N"
  shows "i div 2 ^ k < 2 ^ (N - k)"
proof -
  have "(2::nat) ^ N = 2 ^ (N - k) * 2 ^ k" using assms(2) by (simp flip: power_add)
  then show ?thesis using assms(1) by (simp add: less_mult_imp_div_less)
qed

lemma div_bit:
  fixes i :: nat
  shows "i div 2 ^ t = 2 * (i div 2 ^ Suc t) + of_bool (bit i t)"
proof -
  have "i div 2 ^ t = 2 * (i div 2 ^ t div 2) + (i div 2 ^ t) mod 2"
    by (rule mult_div_mod_eq [symmetric])
  moreover have "i div 2 ^ t div 2 = i div 2 ^ Suc t"
    by (simp only: power_Suc2 div_mult2_eq)
  moreover have "(i div 2 ^ t) mod 2 = of_bool (bit i t)" by (simp add: bit_iff_odd mod_2_eq_odd)
  ultimately show ?thesis by metis
qed

lemma mod_less_double: "i mod 2 ^ t < 2 ^ Suc t" for i :: nat
  by (rule less_le_trans [of _ "2 ^ t"]) simp_all

lemma y_level_step:
  assumes inv: "y_inv a N (Suc t) psi" and t: "Suc t \<le> N"
      and alpha: "\<forall>j < 2 ^ (N - Suc t).
            v ! j = 2 * arcsin (sqrt
                     (if (\<Sum>l < 2 ^ Suc t. (a ! (j * 2 ^ Suc t + l))\<^sup>2) \<noteq> 0
                      then (\<Sum>l < 2 ^ t. (a ! (j * 2 ^ Suc t + 2 ^ t + l))\<^sup>2) /
                           (\<Sum>l < 2 ^ Suc t. (a ! (j * 2 ^ Suc t + l))\<^sup>2)
                      else 0))"
  shows "y_inv a N t
           (apply_local t
              (\<lambda>i0. rotation_matrix RY (v ! ((i0 div 2 ^ Suc t) mod 2 ^ (N - Suc t)))) psi)"
  unfolding y_inv_def
proof (intro allI impI)
  fix i :: nat assume i: "i < 2 ^ N"
  define q where "q = i div 2 ^ Suc t"
  define lo where "lo = i mod 2 ^ t"
  define i0 where "i0 = unset_bit t i"
  define i1 where "i1 = set_bit t i"
  have lo: "lo < 2 ^ t" "lo < 2 ^ Suc t" "2 ^ t + lo < 2 ^ Suc t"
    using mod_less_double [of i t] by (simp_all add: lo_def)
  have i0: "i0 = q * 2 ^ Suc t + lo" and i1: "i1 = q * 2 ^ Suc t + (2 ^ t + lo)"
    using unset_bit_decompose [of t i] by (simp_all add: i0_def i1_def q_def lo_def)
  have lt: "i0 < 2 ^ N" "i1 < 2 ^ N"
    using set_unset_less [OF i, of t] t by (simp_all add: i0_def i1_def)
  have q: "q < 2 ^ (N - Suc t)" unfolding q_def using i t by (rule div_block_less)
  have d0: "i0 div 2 ^ Suc t = q" "i0 mod 2 ^ Suc t = lo"
    unfolding i0 using lo(2) by (rule block_div_mod)+
  have m1: "i1 mod 2 ^ Suc t = 2 ^ t + lo"
    unfolding i1 using lo(3) by (rule block_div_mod)
  define den where "den = (\<Sum>l < 2 ^ Suc t. (a ! (q * 2 ^ Suc t + l))\<^sup>2)"
  define num where "num = (\<Sum>l < 2 ^ t. (a ! (q * 2 ^ Suc t + 2 ^ t + l))\<^sup>2)"
  define low where "low = (\<Sum>l < 2 ^ t. (a ! (q * 2 ^ Suc t + l))\<^sup>2)"
  define al where "al = 2 * arcsin (sqrt (if den \<noteq> 0 then num / den else 0))"
  have dsplit: "den = low + num"
    unfolding den_def low_def num_def
    by (subst sum_split_half) (simp add: add.assoc)
  have nn: "0 \<le> low" "0 \<le> num" by (simp_all add: low_def num_def sum_nonneg)
  have trig: "sin (al / 2) * sqrt den = sqrt num" "cos (al / 2) * sqrt den = sqrt low"
    unfolding al_def using rotation_angle_split [OF nn dsplit] by simp_all
  have idx: "(i0 div 2 ^ Suc t) mod 2 ^ (N - Suc t) = q"
    unfolding d0(1) using q by (rule mod_less)
  have va: "v ! ((i0 div 2 ^ Suc t) mod 2 ^ (N - Suc t)) = al"
    unfolding idx al_def den_def num_def by (rule alpha [rule_format, OF q])
  have p1: "psi i1 = 0" using inv lt(2) m1 by (simp add: y_inv_def)
  have p0: "psi i0 = (if lo = 0 then complex_of_real (sqrt (\<Sum>l < 2 ^ Suc t. (a ! (i0 + l))\<^sup>2)) else 0)"
    using inv lt(1) d0(2) by (simp add: y_inv_def)
  have it: "i mod 2 ^ t = lo" by (simp add: lo_def)
  have val: "apply_local t
              (\<lambda>i0. rotation_matrix RY (v ! ((i0 div 2 ^ Suc t) mod 2 ^ (N - Suc t)))) psi i =
             (if bit i t then complex_of_real (sin (al / 2)) * psi i0
              else complex_of_real (cos (al / 2)) * psi i0)"
    unfolding apply_local_def i0_def [symmetric] i1_def [symmetric] va
    by (simp add: p1)
  show "apply_local t
              (\<lambda>i0. rotation_matrix RY (v ! ((i0 div 2 ^ Suc t) mod 2 ^ (N - Suc t)))) psi i =
        (if i mod 2 ^ t = 0 then complex_of_real (sqrt (\<Sum>l < 2 ^ t. (a ! (i + l))\<^sup>2)) else 0)"
  proof (cases "lo = 0")
    case False
    then show ?thesis unfolding val by (simp add: p0 it)
  next
    case True
    then have e0: "i0 = q * 2 ^ Suc t" using i0 by simp
    have ps: "psi i0 = complex_of_real (sqrt den)" using p0 True by (simp add: e0 den_def)
    show ?thesis
    proof (cases "bit i t")
      case b: True
      then have "i = i0 + 2 ^ t" using set_unset_arith(2) [of i t] i1 i0 by (simp add: i1_def)
      then have "(\<Sum>l < 2 ^ t. (a ! (i + l))\<^sup>2) = num" by (simp add: num_def e0 add.assoc)
      then show ?thesis
        using b trig(1) unfolding val by (simp add: ps it True flip: of_real_mult)
    next
      case b: False
      then have "i = i0" using set_unset_arith(3) [of i t] by (simp add: i0_def)
      then have "(\<Sum>l < 2 ^ t. (a ! (i + l))\<^sup>2) = low" by (simp add: low_def e0)
      then show ?thesis
        using b trig(2) unfolding val by (simp add: ps it True flip: of_real_mult)
    qed
  qed
qed

lemma block_mean_Suc:
  "block_mean omega (Suc t) q = (block_mean omega t (2 * q) + block_mean omega t (2 * q + 1)) / 2"
proof -
  have "(\<Sum>l < 2 ^ Suc t. omega ! (q * 2 ^ Suc t + l)) =
        (\<Sum>l < 2 ^ t. omega ! (2 * q * 2 ^ t + l)) + (\<Sum>l < 2 ^ t. omega ! ((2 * q + 1) * 2 ^ t + l))"
    by (subst sum_split_half) (simp add: algebra_simps)
  then show ?thesis by (simp add: block_mean_def add_divide_distrib)
qed

lemma z_level_step:
  assumes inv: "z_inv a omega N (Suc t) psi" and t: "Suc t \<le> N"
      and alpha: "\<forall>j < 2 ^ (N - Suc t).
            v ! j = block_mean omega t (2 * j + 1) - block_mean omega t (2 * j)"
  shows "z_inv a omega N t
           (apply_local t
              (\<lambda>i0. rotation_matrix RZ (v ! ((i0 div 2 ^ Suc t) mod 2 ^ (N - Suc t)))) psi)"
  unfolding z_inv_def
proof (intro allI impI)
  fix i :: nat assume i: "i < 2 ^ N"
  define q where "q = i div 2 ^ Suc t"
  define al where "al = block_mean omega t (2 * q + 1) - block_mean omega t (2 * q)"
  have q: "q < 2 ^ (N - Suc t)" unfolding q_def using i t by (rule div_block_less)
  have d0: "unset_bit t i div 2 ^ Suc t = q"
    unfolding unset_bit_decompose(1) [of t i] q_def
    by (rule block_div_mod) (rule mod_less_double)
  have idx: "(unset_bit t i div 2 ^ Suc t) mod 2 ^ (N - Suc t) = q"
    unfolding d0 using q by (rule mod_less)
  have va: "v ! ((unset_bit t i div 2 ^ Suc t) mod 2 ^ (N - Suc t)) = al"
    unfolding idx al_def by (rule alpha [rule_format, OF q])
  have ps: "psi i = complex_of_real (a ! i) * cis (block_mean omega (Suc t) q - block_mean omega N 0)"
    using inv i by (simp add: z_inv_def q_def)
  have bm: "block_mean omega (Suc t) q = (block_mean omega t (2 * q) + block_mean omega t (2 * q + 1)) / 2"
    by (rule block_mean_Suc)
  have dt: "i div 2 ^ t = 2 * q + of_bool (bit i t)" unfolding q_def by (rule div_bit)
  show "apply_local t
              (\<lambda>i0. rotation_matrix RZ (v ! ((i0 div 2 ^ Suc t) mod 2 ^ (N - Suc t)))) psi i =
        complex_of_real (a ! i) * cis (block_mean omega t (i div 2 ^ t) - block_mean omega N 0)"
  proof (cases "bit i t")
    case True
    then have "apply_local t
              (\<lambda>i0. rotation_matrix RZ (v ! ((i0 div 2 ^ Suc t) mod 2 ^ (N - Suc t)))) psi i =
          cis (al / 2) * psi i"
      unfolding apply_local_def va by (simp add: set_unset_arith)
    also have "\<dots> = complex_of_real (a ! i) *
                  cis (al / 2 + (block_mean omega (Suc t) q - block_mean omega N 0))"
      by (simp add: ps cis_mult)
    also have "al / 2 + (block_mean omega (Suc t) q - block_mean omega N 0) =
               block_mean omega t (i div 2 ^ t) - block_mean omega N 0"
      using True by (simp add: dt al_def bm field_simps)
    finally show ?thesis .
  next
    case False
    then have "apply_local t
              (\<lambda>i0. rotation_matrix RZ (v ! ((i0 div 2 ^ Suc t) mod 2 ^ (N - Suc t)))) psi i =
          cis (- al / 2) * psi i"
      unfolding apply_local_def va by (simp add: set_unset_arith)
    also have "\<dots> = complex_of_real (a ! i) *
                  cis (- al / 2 + (block_mean omega (Suc t) q - block_mean omega N 0))"
      by (simp add: ps cis_mult)
    also have "- al / 2 + (block_mean omega (Suc t) q - block_mean omega N 0) =
               block_mean omega t (i div 2 ^ t) - block_mean omega N 0"
      using False by (simp add: dt al_def bm field_simps)
    finally show ?thesis .
  qed
qed

lemma reversed_wire_bits:
  assumes d: "distinct wires" and k: "k < length wires"
  shows "wire_bit wires (rev wires ! k) = k"
  unfolding wire_bit_def by (rule wire_index_nth) (use d k in simp_all)

lemma level_wires:
  assumes d: "distinct wires" and t: "Suc t \<le> length wires"
  shows "\<forall>p < length (drop (Suc t) (rev wires)).
           wire_bit wires (drop (Suc t) (rev wires) ! p) = Suc t + p"
    and "wire_bit wires (rev wires ! t) = t"
    and "length (drop (Suc t) (rev wires)) = length wires - Suc t"
proof -
  show "\<forall>p < length (drop (Suc t) (rev wires)).
           wire_bit wires (drop (Suc t) (rev wires) ! p) = Suc t + p"
  proof (intro allI impI)
    fix p assume "p < length (drop (Suc t) (rev wires))"
    then have p: "Suc t + p < length wires" by simp
    then have "drop (Suc t) (rev wires) ! p = rev wires ! (Suc t + p)" by simp
    then show "wire_bit wires (drop (Suc t) (rev wires) ! p) = Suc t + p"
      using reversed_wire_bits [OF d p] by simp
  qed
  show "wire_bit wires (rev wires ! t) = t"
    using t by (intro reversed_wire_bits [OF d]) simp
  show "length (drop (Suc t) (rev wires)) = length wires - Suc t" by simp
qed

lemma y_cascade_semantics:
  assumes d: "distinct wires" and N: "length wires = N" and la: "length a = 2 ^ N"
  shows "k \<le> N \<Longrightarrow> y_inv a N k psi \<Longrightarrow>
         \<exists>ops. y_cascade a N (rev wires) k q = (q @ ops, None) \<and>
               y_inv a N 0 (run_operations wires ops psi)"
proof (induction k arbitrary: psi q)
  case 0
  then have "y_cascade a N (rev wires) 0 q = (q @ [], None) \<and>
             y_inv a N 0 (run_operations wires [] psi)" by simp
  then show ?case by blast
next
  case (Suc t)
  let ?wr = "rev wires"
  have t: "Suc t \<le> length wires" "1 \<le> Suc t" using Suc.prems(1) N by simp_all
  have k: "1 \<le> Suc t" "Suc t \<le> N" using Suc.prems(1) by simp_all
  from alpha_y_nth [OF k la, of 0]
  obtain v where v: "get_alpha_y a (int N) (int (Suc t)) = Inr v" "length v = 2 ^ (N - Suc t)"
    by auto
  have av: "\<forall>j < 2 ^ (N - Suc t).
            v ! j = 2 * arcsin (sqrt
                     (if (\<Sum>l < 2 ^ Suc t. (a ! (j * 2 ^ Suc t + l))\<^sup>2) \<noteq> 0
                      then (\<Sum>l < 2 ^ t. (a ! (j * 2 ^ Suc t + 2 ^ t + l))\<^sup>2) /
                           (\<Sum>l < 2 ^ Suc t. (a ! (j * 2 ^ Suc t + l))\<^sup>2)
                      else 0))"
  proof (intro allI impI)
    fix j :: nat assume "j < 2 ^ (N - Suc t)"
    from alpha_y_nth [OF k la this] v(1)
    show "v ! j = 2 * arcsin (sqrt
                     (if (\<Sum>l < 2 ^ Suc t. (a ! (j * 2 ^ Suc t + l))\<^sup>2) \<noteq> 0
                      then (\<Sum>l < 2 ^ t. (a ! (j * 2 ^ Suc t + 2 ^ t + l))\<^sup>2) /
                           (\<Sum>l < 2 ^ Suc t. (a ! (j * 2 ^ Suc t + l))\<^sup>2)
                      else 0))"
      by auto
  qed
  note lw = level_wires [OF d t(1)]
  have lv: "length v = 2 ^ length (drop (Suc t) ?wr)" using v(2) N by simp
  have tp: "wire_bit wires (?wr ! t) < Suc t" using lw(2) by simp
  from uniform_rotation_dagger_semantics [OF lv lw(1) tp, of RY q psi]
  obtain ops1 where
    u: "uniform_rotation_dagger RY v (drop (Suc t) ?wr) (?wr ! t) q = (q @ ops1, None)" and
    r: "run_operations wires ops1 psi =
          apply_local t (\<lambda>i0. rotation_matrix RY (v ! ((i0 div 2 ^ Suc t) mod 2 ^ (N - Suc t)))) psi"
    unfolding lw(2) lw(3) N by blast
  have "y_inv a N t (run_operations wires ops1 psi)"
    unfolding r using Suc.prems(2) k(2) av by (rule y_level_step)
  from Suc.IH [OF _ this, of "q @ ops1"] k(2)
  obtain ops2 where
    c: "y_cascade a N ?wr t (q @ ops1) = ((q @ ops1) @ ops2, None)" and
    i: "y_inv a N 0 (run_operations wires ops2 (run_operations wires ops1 psi))"
    by auto
  have "\<not> length ?wr \<le> t" using t(1) by simp
  then have "y_cascade a N ?wr (Suc t) q = (q @ (ops1 @ ops2), None)"
    using v(1) u c by (simp del: of_nat_Suc)
  moreover have "y_inv a N 0 (run_operations wires (ops1 @ ops2) psi)"
    using i by (simp add: run_operations_append)
  ultimately show ?case by blast
qed

lemma z_cascade_semantics:
  assumes d: "distinct wires" and N: "length wires = N" and lo: "length omega = 2 ^ N"
  shows "k \<le> N \<Longrightarrow> z_inv a omega N k psi \<Longrightarrow>
         \<exists>ops. z_cascade omega N (rev wires) k q = (q @ ops, None) \<and>
               z_inv a omega N 0 (run_operations wires ops psi)"
proof (induction k arbitrary: psi q)
  case 0
  then have "z_cascade omega N (rev wires) 0 q = (q @ [], None) \<and>
             z_inv a omega N 0 (run_operations wires [] psi)" by simp
  then show ?case by blast
next
  case (Suc t)
  let ?wr = "rev wires"
  have t: "Suc t \<le> length wires" "1 \<le> Suc t" using Suc.prems(1) N by simp_all
  have k: "1 \<le> Suc t" "Suc t \<le> N" using Suc.prems(1) by simp_all
  from alpha_z_nth [OF k lo, of 0]
  obtain v where v: "get_alpha_z omega (int N) (int (Suc t)) = Inr v" "length v = 2 ^ (N - Suc t)"
    by auto
  have av: "\<forall>j < 2 ^ (N - Suc t).
            v ! j = block_mean omega t (2 * j + 1) - block_mean omega t (2 * j)"
  proof (intro allI impI)
    fix j :: nat assume "j < 2 ^ (N - Suc t)"
    from alpha_z_nth [OF k lo this] v(1)
    show "v ! j = block_mean omega t (2 * j + 1) - block_mean omega t (2 * j)"
      by auto
  qed
  note lw = level_wires [OF d t(1)]
  have lv: "length v = 2 ^ length (drop (Suc t) ?wr)" using v(2) N by simp
  have tp: "wire_bit wires (?wr ! t) < Suc t" using lw(2) by simp
  from uniform_rotation_dagger_semantics [OF lv lw(1) tp, of RZ q psi]
  obtain ops1 where
    u: "uniform_rotation_dagger RZ v (drop (Suc t) ?wr) (?wr ! t) q = (q @ ops1, None)" and
    r: "run_operations wires ops1 psi =
          apply_local t (\<lambda>i0. rotation_matrix RZ (v ! ((i0 div 2 ^ Suc t) mod 2 ^ (N - Suc t)))) psi"
    unfolding lw(2) lw(3) N by blast
  have "z_inv a omega N t (run_operations wires ops1 psi)"
    unfolding r using Suc.prems(2) k(2) av by (rule z_level_step)
  from Suc.IH [OF _ this, of "q @ ops1"] k(2)
  obtain ops2 where
    c: "z_cascade omega N ?wr t (q @ ops1) = ((q @ ops1) @ ops2, None)" and
    i: "z_inv a omega N 0 (run_operations wires ops2 (run_operations wires ops1 psi))"
    by auto
  have "\<not> length ?wr \<le> t" using t(1) by simp
  moreover have "0 < length v" using v(2) by simp
  ultimately have "z_cascade omega N ?wr (Suc t) q = (q @ (ops1 @ ops2), None)"
    using v(1) u c by (simp del: of_nat_Suc)
  moreover have "z_inv a omega N 0 (run_operations wires (ops1 @ ops2) psi)"
    using i by (simp add: run_operations_append)
  ultimately show ?case by blast
qed

lemma sum_list_nth_sum:
  "sum_list (map f xs) = (\<Sum>l < length xs. f (xs ! l))" for f :: "'a \<Rightarrow> real"
proof -
  have "sum_list (map f xs) = (\<Sum>l = 0..<length (map f xs). map f xs ! l)"
    by (rule sum_list_sum_nth)
  also have "\<dots> = (\<Sum>l < length xs. f (xs ! l))"
    by (simp add: atLeast0LessThan)
  finally show ?thesis .
qed

text \<open>
  Claim C1: for \<open>N \<ge> 1\<close> distinct wires and a complex state vector of length \<open>2^N\<close>
  whose squared magnitudes sum to \<open>1\<close>, the driver raises nothing, and the emitted
  sequence (the Y-cascade, then the Z-cascade), applied in order to the all-zero
  state, gives the input vector times one complex number of magnitude \<open>1\<close>.
\<close>

theorem mottonen_prepares_state:
  assumes n: "1 \<le> length wires" and d: "distinct wires"
      and len: "length state_vector = 2 ^ length wires"
      and norm: "(\<Sum>z\<leftarrow>state_vector. (cmod z)\<^sup>2) = 1"
  shows "\<exists>ops c. MottonenStatePreparation state_vector wires = (ops, None) \<and> cmod c = 1 \<and>
           (\<forall>i < 2 ^ length wires. run_operations wires ops zero_state i = c * state_vector ! i)"
proof -
  define N where "N = length wires"
  define a where "a = map cmod state_vector"
  define omega where "omega = map Arg state_vector"
  define mu where "mu = block_mean omega N 0"
  have N: "length wires = N" by (simp add: N_def)
  have la: "length a = 2 ^ N" and lo: "length omega = 2 ^ N"
    using len by (simp_all add: a_def omega_def N_def)
  have ai: "a ! i = cmod (state_vector ! i)" "omega ! i = Arg (state_vector ! i)" if "i < 2 ^ N" for i
    using that len by (simp_all add: a_def omega_def N_def)
  have total: "(\<Sum>l < 2 ^ N. (a ! l)\<^sup>2) = 1"
  proof -
    have "(\<Sum>l < 2 ^ N. (a ! l)\<^sup>2) = (\<Sum>l < length state_vector. (cmod (state_vector ! l))\<^sup>2)"
      using len by (intro sum.cong) (simp_all add: ai N_def)
    also have "\<dots> = (\<Sum>z\<leftarrow>state_vector. (cmod z)\<^sup>2)"
      by (rule sum_list_nth_sum [symmetric])
    finally show ?thesis using norm by simp
  qed
  have y0: "y_inv a N N zero_state"
    unfolding y_inv_def
  proof (intro allI impI)
    fix i :: nat assume "i < 2 ^ N"
    then show "zero_state i = (if i mod 2 ^ N = 0
                           then complex_of_real (sqrt (\<Sum>l < 2 ^ N. (a ! (i + l))\<^sup>2)) else 0)"
      using total by (auto simp: zero_state_def)
  qed
  from y_cascade_semantics [OF d N la _ y0, of "[]"]
  obtain ops_y where
    cy: "y_cascade a N (rev wires) N [] = (ops_y, None)" and
    iy: "y_inv a N 0 (run_operations wires ops_y zero_state)"
    by auto
  let ?psi_y = "run_operations wires ops_y zero_state"
  have py: "?psi_y i = complex_of_real (a ! i)" if "i < 2 ^ N" for i
  proof -
    have "0 \<le> a ! i" using ai(1) [OF that] by simp
    then show ?thesis using iy that by (simp add: y_inv_def)
  qed
  have z0: "z_inv a omega N N ?psi_y"
    unfolding z_inv_def by (simp add: py)
  from z_cascade_semantics [OF d N lo _ z0, of ops_y]
  obtain ops_z where
    cz: "z_cascade omega N (rev wires) N ops_y = (ops_y @ ops_z, None)" and
    iz: "z_inv a omega N 0 (run_operations wires ops_z ?psi_y)"
    by auto
  have fin: "run_operations wires (ops_y @ ops_z) zero_state i = cis (- mu) * state_vector ! i"
    if "i < 2 ^ N" for i
  proof -
    have "block_mean omega 0 i = Arg (state_vector ! i)"
      using ai(2) [OF that] by (simp add: block_mean_def)
    then have "run_operations wires ops_z ?psi_y i =
          complex_of_real (cmod (state_vector ! i)) * cis (Arg (state_vector ! i) - mu)"
      using iz that ai(1) [OF that] by (simp add: z_inv_def mu_def)
    also have "\<dots> = cis (- mu) * rcis (cmod (state_vector ! i)) (Arg (state_vector ! i))"
    proof -
      have "cis (Arg (state_vector ! i) - mu) = cis (- mu) * cis (Arg (state_vector ! i))"
        by (simp add: cis_mult)
      then show ?thesis by (simp add: rcis_def)
    qed
    also have "\<dots> = cis (- mu) * state_vector ! i"
      by (simp only: rcis_cmod_Arg)
    finally show ?thesis by (simp add: run_operations_append)
  qed
  have close: "np_isclose (sum_list (map (\<lambda>z. \<bar>cmod z\<bar> ^ 2) state_vector)) 1 (1 / 1000)"
    using norm by (simp add: np_isclose_def)
  have "MottonenStatePreparation state_vector wires = (ops_y @ ops_z, None)"
    unfolding MottonenStatePreparation_def Let_def
    using len close cy cz by (simp add: check_shape_def flip: a_def omega_def N_def)
  moreover have "cmod (cis (- mu)) = 1" by simp
  ultimately show ?thesis
    using fin unfolding N_def by blast
qed

theorem mottonen_prepares_state_witness:
  "1 \<le> length [''w''] \<and> distinct [''w''] \<and> length [0, 1 :: complex] = 2 ^ length [''w''] \<and>
   (\<Sum>z\<leftarrow>[0, 1 :: complex]. (cmod z)\<^sup>2) = 1 \<and>
   (\<exists>ops c. MottonenStatePreparation [0, 1] [''w''] = (ops, None) \<and> cmod c = 1 \<and>
      (\<forall>i < 2 ^ length [''w'']. run_operations [''w''] ops zero_state i = c * [0, 1] ! i))"
proof -
  have h: "1 \<le> length [''w'']" "distinct [''w'']" "length [0, 1 :: complex] = 2 ^ length [''w'']"
    "(\<Sum>z\<leftarrow>[0, 1 :: complex]. (cmod z)\<^sup>2) = 1"
    by simp_all
  from mottonen_prepares_state [OF h] h show ?thesis by blast
qed

end
